theory Spec2Isabelle
  imports Main "HOL-Library.Word"
begin

section \<open>Results, errors and the standard library\<close>

text \<open>
  A Go \<open>error\<close> is represented by its message; \<open>Warning\<close> is another name for the same
  interface. A call either returns or panics (an index out of range).
\<close>

type_synonym error = string
type_synonym Warning = error

datatype 'a go = Returns 'a | Panics

subsection \<open>path/filepath on a Unix system\<close>

text \<open>
  The functions of the Go standard library the program calls, with \<open>/\<close> as the only
  separator and no volume names. \<open>Ext\<close> scans backwards for the last dot of the final
  element; \<open>Base\<close> strips trailing separators and keeps the final element; \<open>Clean\<close> is
  modelled on the list of path elements: empty elements and \<open>.\<close> are dropped, \<open>..\<close>
  removes the element before it if there is one, is dropped at the root and is kept at
  the front of a relative path.
\<close>

fun ext_scan :: "string \<Rightarrow> string \<Rightarrow> string" where
  "ext_scan [] acc = []"
| "ext_scan (c # cs) acc =
     (if c = CHR ''/'' then []
      else if c = CHR ''.'' then c # acc
      else ext_scan cs (c # acc))"

definition Ext :: "string \<Rightarrow> string" where
  "Ext path = ext_scan (rev path) []"

definition Base :: "string \<Rightarrow> string" where
  "Base path =
     (if path = [] then ''.''
      else let stripped = dropWhile (\<lambda>c. c = CHR ''/'') (rev path);
               element = rev (takeWhile (\<lambda>c. c \<noteq> CHR ''/'') stripped)
           in if element = [] then ''/'' else element)"

fun elements :: "string \<Rightarrow> string \<Rightarrow> string list" where
  "elements [] cur = [rev cur]"
| "elements (c # cs) cur =
     (if c = CHR ''/'' then rev cur # elements cs [] else elements cs (c # cur))"

definition clean_step :: "bool \<Rightarrow> string \<Rightarrow> string list \<Rightarrow> string list" where
  "clean_step rooted el stack =
     (if el = [] \<or> el = ''.'' then stack
      else if el = ''..'' then
        (case stack of
           [] \<Rightarrow> if rooted then [] else [''..'']
         | prev # below \<Rightarrow>
             if prev \<noteq> ''..'' then below
             else if rooted then stack else ''..'' # stack)
      else el # stack)"

fun join_elements :: "string list \<Rightarrow> string" where
  "join_elements [] = []"
| "join_elements [e] = e"
| "join_elements (e # es) = e @ ''/'' @ join_elements es"

definition Clean :: "string \<Rightarrow> string" where
  "Clean path =
     (case path of
        [] \<Rightarrow> ''.''
      | c # _ \<Rightarrow>
          let rooted = (c = CHR ''/'');
              out = rev (fold (clean_step rooted) (elements path []) [])
          in if rooted then ''/'' @ join_elements out
             else if out = [] then ''.'' else join_elements out)"

definition Join :: "string \<Rightarrow> string \<Rightarrow> string" where
  "Join a b =
     (if a \<noteq> [] then Clean (a @ ''/'' @ b)
      else if b \<noteq> [] then Clean b
      else [])"

definition Dir :: "string \<Rightarrow> string" where
  "Dir path = Clean (rev (dropWhile (\<lambda>c. c \<noteq> CHR ''/'') (rev path)))"

definition HasSuffix :: "string \<Rightarrow> string \<Rightarrow> bool" where
  "HasSuffix s suffix =
     (length suffix \<le> length s \<and> drop (length s - length suffix) s = suffix)"

section \<open>Rule set parameters and their comparison (entity\_ruleset.go)\<close>

text \<open>
  The struct \<open>RuleSetParameters\<close>. Go's \<open>int\<close> is a 64-bit machine integer on the
  platforms the program is built for; only equality is ever used on it.
\<close>

record RuleSetParameters =
  DismissStaleReviewsOnPush :: bool
  RequireCodeOwnerReview :: bool
  RequiredApprovingReviewCount :: "64 word"
  RequiredReviewThreadResolution :: bool
  RequireLastPushApproval :: bool
  RequiredStatusChecks :: "string list"
  StrictRequiredStatusChecksPolicy :: bool

text \<open>
  Modelled from the spec: \<open>StringArrayEquivalent\<close> is a helper of package \<open>entity\<close>
  whose source file is not part of the sources at hand. The specification says that the
  two name lists are compared "as sets", regardless of order, and that the helper reports
  "not just equality but also, conceptually, the symmetric difference for diagnostic use".
  The model returns the verdict together with the names found only on the left and the
  names found only on the right; the verdict is that both differences are empty.
\<close>

definition StringArrayEquivalent ::
    "string list \<Rightarrow> string list \<Rightarrow> bool \<times> string list \<times> string list" where
  "StringArrayEquivalent a b =
     (let onlyLeft = filter (\<lambda>x. x \<notin> set b) a;
          onlyRight = filter (\<lambda>x. x \<notin> set a) b
      in (onlyLeft = [] \<and> onlyRight = [], onlyLeft, onlyRight))"

definition CompareRulesetParameters ::
    "string \<Rightarrow> RuleSetParameters \<Rightarrow> RuleSetParameters \<Rightarrow> bool" where
  "CompareRulesetParameters ruletype left right =
     (if ruletype = ''required_signatures'' then True
      else if ruletype = ''pull_request'' then
        (if DismissStaleReviewsOnPush left \<noteq> DismissStaleReviewsOnPush right then False
         else if RequireCodeOwnerReview left \<noteq> RequireCodeOwnerReview right then False
         else if RequiredApprovingReviewCount left \<noteq> RequiredApprovingReviewCount right
           then False
         else if RequiredReviewThreadResolution left \<noteq> RequiredReviewThreadResolution right
           then False
         else if RequireLastPushApproval left \<noteq> RequireLastPushApproval right then False
         else True)
      else if ruletype = ''required_status_checks'' then
        (case StringArrayEquivalent (RequiredStatusChecks left) (RequiredStatusChecks right) of
           (res, _, _) \<Rightarrow>
             if \<not> res then False
             else if StrictRequiredStatusChecksPolicy left
                       \<noteq> StrictRequiredStatusChecksPolicy right then False
             else True)
      else False)"

section \<open>Entities and their environment\<close>

text \<open>
  The header every configuration object embeds. The struct \<open>Entity\<close> is declared in a file
  of the package that is not at hand; the three fields are the ones the validators and the
  test of the package read.
\<close>

record Entity =
  ApiVersion :: string
  Kind :: string
  Name :: string

text \<open>An entry of a directory listing (\<open>os.FileInfo\<close>): only the name and the directory flag are read.\<close>

record FileInfo =
  entry_Name :: string
  entry_IsDir :: bool

record BypassApp =
  AppName :: string
  Mode :: string

record OnBranches =
  Include :: "string list"
  Exclude :: "string list"

record Rule =
  Ruletype :: string
  Parameters :: RuleSetParameters

record RuleSetDefinition =
  Enforcement :: string
  BypassApps :: "BypassApp list"
  On :: OnBranches
  Rules :: "Rule list"

record RuleSet = Entity +
  Spec :: RuleSetDefinition

record RepositoryRuleSet = RuleSetDefinition +
  RuleSetName :: string

record RepositorySpec =
  Writers :: "string list"
  Readers :: "string list"
  ExternalUserReaders :: "string list"
  ExternalUserWriters :: "string list"
  IsPublic :: bool
  AllowAutoMerge :: bool
  DeleteBranchOnMerge :: bool
  AllowUpdateBranch :: bool
  Rulesets :: "RepositoryRuleSet list"

record Repository = Entity +
  RepoSpec :: RepositorySpec
  Archived :: bool
  Owner :: "string option"
  RenameTo :: string
  DirectoryPath :: string

text \<open>
  What the readers are given from outside the files at hand: the file system
  (\<open>fs.ReadDir\<close>, and the wrappers \<open>utils.Exists\<close> and \<open>utils.ReadFile\<close> around it), the
  YAML deserialiser at the two types it is used at, and \<open>utils.GithubAnsiString\<close>. They
  are parameters of the model. A failing call returns \<open>Inl\<close> of its error.
\<close>

record env =
  Exists :: "string \<Rightarrow> error + bool"
  ReadDir :: "string \<Rightarrow> error + FileInfo list"
  ReadFile :: "string \<Rightarrow> error + string"
  UnmarshalRuleSet :: "string \<Rightarrow> error + RuleSet"
  UnmarshalRepository :: "string \<Rightarrow> error + Repository"
  GithubAnsiString :: "string \<Rightarrow> string"

section \<open>Rule sets: parsing, validation, directory reader (entity\_ruleset.go)\<close>

definition NewRuleSet :: "env \<Rightarrow> string \<Rightarrow> error + RuleSet" where
  "NewRuleSet fs filename =
     (case ReadFile fs filename of
        Inl err \<Rightarrow> Inl err
      | Inr filecontent \<Rightarrow>
          (case UnmarshalRuleSet fs filecontent of
             Inl err \<Rightarrow> Inl err
           | Inr ruleset \<Rightarrow> Inr ruleset))"

text \<open>The three loops of \<open>Validate\<close>; each returns at the first offending element.\<close>

fun validateRules :: "string \<Rightarrow> Rule list \<Rightarrow> error option" where
  "validateRules filename [] = None"
| "validateRules filename (rule # rules) =
     (if Ruletype rule \<noteq> ''required_signatures'' \<and> Ruletype rule \<noteq> ''pull_request''
         \<and> Ruletype rule \<noteq> ''required_status_checks''
      then Some (''invalid rulettype: '' @ Ruletype rule @ '' for ruleset filename '' @ filename)
      else validateRules filename rules)"

fun validateBypassApps :: "string \<Rightarrow> BypassApp list \<Rightarrow> error option" where
  "validateBypassApps filename [] = None"
| "validateBypassApps filename (ba # bas) =
     (if Mode ba \<noteq> ''always'' \<and> Mode ba \<noteq> ''pull_request''
      then Some (''invalid mode: '' @ Mode ba @ '' for bypassapp '' @ AppName ba
                 @ '' in ruleset filename '' @ filename)
      else validateBypassApps filename bas)"

text \<open>\<open>on[0]\<close> is read with no check of the length: on the empty string the index is out of range.\<close>

fun validateInclude :: "string \<Rightarrow> string list \<Rightarrow> error option go" where
  "validateInclude filename [] = Returns None"
| "validateInclude filename (on # ons) =
     (case on of
        [] \<Rightarrow> Panics
      | c # _ \<Rightarrow>
          if c = CHR ''~'' \<and> (on \<noteq> ''~DEFAULT_BRANCH'' \<and> on \<noteq> ''~ALL'')
          then Returns (Some (''invalid include: '' @ on @ '' in ruleset filename '' @ filename))
          else validateInclude filename ons)"

definition Validate :: "RuleSet \<Rightarrow> string \<Rightarrow> error option go" where
  "Validate r filename =
     (if ApiVersion r \<noteq> ''v1'' then
        Returns (Some (''invalid apiVersion: '' @ ApiVersion r @ '' for ruleset filename '' @ filename))
      else if Kind r \<noteq> ''Ruleset'' then
        Returns (Some (''invalid kind: '' @ Kind r @ '' for ruleset filename '' @ filename))
      else if Name r = [] then
        Returns (Some (''metadata.name is empty for ruleset filename '' @ filename))
      else
        let filename = Base filename in
        if Name r \<noteq> take (length filename - length (Ext filename)) filename then
          Returns (Some (''invalid metadata.name: '' @ Name r @ '' for ruleset filename '' @ filename))
        else
          (case validateRules filename (Rules (Spec r)) of
             Some err \<Rightarrow> Returns (Some err)
           | None \<Rightarrow>
               if Enforcement (Spec r) \<noteq> ''disable'' \<and> Enforcement (Spec r) \<noteq> ''active''
                  \<and> Enforcement (Spec r) \<noteq> ''evaluate''
               then Returns (Some (''invalid enforcement: '' @ Enforcement (Spec r)
                                   @ '' for ruleset filename '' @ filename))
               else
                 (case validateBypassApps filename (BypassApps (Spec r)) of
                    Some err \<Rightarrow> Returns (Some err)
                  | None \<Rightarrow> validateInclude filename (Include (On (Spec r))))))"

text \<open>
  The loop of \<open>ReadRuleSetDirectory\<close> over the entries, on the state
  (\<open>rulesets\<close>, \<open>errors\<close>, \<open>warning\<close>). \<open>e.Name()[0]\<close> panics on an empty name, and a
  panic of \<open>Validate\<close> is not recovered.
\<close>

type_synonym rulesets_state = "(string \<rightharpoonup> RuleSet) \<times> error list \<times> Warning list"

fun readRuleSetEntries :: "env \<Rightarrow> string \<Rightarrow> FileInfo list \<Rightarrow> rulesets_state \<Rightarrow> rulesets_state go" where
  "readRuleSetEntries fs dirname [] st = Returns st"
| "readRuleSetEntries fs dirname (e # es) (rulesets, errors, warning) =
     (if entry_IsDir e then readRuleSetEntries fs dirname es (rulesets, errors, warning)
      else
        (case entry_Name e of
           [] \<Rightarrow> Panics
         | c # _ \<Rightarrow>
             if c = CHR ''.'' then readRuleSetEntries fs dirname es (rulesets, errors, warning)
             else
               (case NewRuleSet fs (Join dirname (entry_Name e)) of
                  Inl err \<Rightarrow> readRuleSetEntries fs dirname es (rulesets, errors @ [err], warning)
                | Inr ruleset \<Rightarrow>
                    (case Validate ruleset (Join dirname (entry_Name e)) of
                       Panics \<Rightarrow> Panics
                     | Returns (Some err) \<Rightarrow>
                         readRuleSetEntries fs dirname es (rulesets, errors @ [err], warning)
                     | Returns None \<Rightarrow>
                         readRuleSetEntries fs dirname es
                           (rulesets(Name ruleset \<mapsto> ruleset), errors, warning)))))"

definition ReadRuleSetDirectory :: "env \<Rightarrow> string \<Rightarrow> rulesets_state go" where
  "ReadRuleSetDirectory fs dirname =
     (case Exists fs dirname of
        Inl err \<Rightarrow> Returns (Map.empty, [err], [])
      | Inr exist \<Rightarrow>
          if \<not> exist then Returns (Map.empty, [], [])
          else
            (case ReadDir fs dirname of
               Inl err \<Rightarrow> Returns (Map.empty, [err], [])
             | Inr entries \<Rightarrow> readRuleSetEntries fs dirname entries (Map.empty, [], [])))"

section \<open>Repositories: parsing, validation, directory reader (repository.go)\<close>

text \<open>
  \<open>NewRepository\<close>. The fields \<open>Owner\<close> and \<open>DirectoryPath\<close> carry the tag \<open>yaml:"-"\<close>: the
  deserialiser never writes them, so \<open>Owner\<close> keeps the nil of the fresh struct, and
  \<open>DirectoryPath\<close> is assigned from the file name.
\<close>

definition NewRepository :: "env \<Rightarrow> string \<Rightarrow> error + Repository" where
  "NewRepository fs filename =
     (case ReadFile fs filename of
        Inl err \<Rightarrow> Inl err
      | Inr filecontent \<Rightarrow>
          (case UnmarshalRepository fs filecontent of
             Inl err \<Rightarrow> Inl err
           | Inr repository \<Rightarrow>
               Inr (repository\<lparr>Owner := None, DirectoryPath := Dir filename\<rparr>)))"

text \<open>
  The loop of \<open>Repository.Validate\<close> over the rule sets of the repository; \<open>rulesetname\<close>
  is the map of the names seen so far.
\<close>

fun validateRulesets :: "(string \<rightharpoonup> bool) \<Rightarrow> RepositoryRuleSet list \<Rightarrow> error option" where
  "validateRulesets rulesetname [] = None"
| "validateRulesets rulesetname (ruleset # rest) =
     (if RuleSetName ruleset = [] then
        Some ''invalid ruleset: each ruleset must have a name''
      else if Enforcement ruleset \<noteq> ''disable'' \<and> Enforcement ruleset \<noteq> ''active''
              \<and> Enforcement ruleset \<noteq> ''evaluate'' then
        Some (''invalid ruleset '' @ RuleSetName ruleset
              @ '' enforcement: it must be 'disable','active' or 'evaluate'' @ [CHR 0x27])
      else if rulesetname (RuleSetName ruleset) \<noteq> None then
        Some (''invalid ruleset: each ruleset must have a uniq name, found 2 times ''
              @ RuleSetName ruleset)
      else validateRulesets (rulesetname(RuleSetName ruleset \<mapsto> True)) rest)"

text \<open>
  \<open>Repository.Validate\<close>. The tables \<open>teams\<close> and \<open>externalUsers\<close> are only asked whether
  a name is a key. Each loop over names returns at the first name that is not.
\<close>

definition ValidateRepository ::
    "env \<Rightarrow> Repository \<Rightarrow> string \<Rightarrow> (string \<rightharpoonup> 'team) \<Rightarrow> (string \<rightharpoonup> 'user) \<Rightarrow> error option" where
  "ValidateRepository fs r filename teams externalUsers =
     (if ApiVersion r \<noteq> ''v1'' then
        Some (''invalid apiVersion: '' @ ApiVersion r @ '' (check repository filename '' @ filename @ '')'')
      else if Kind r \<noteq> ''Repository'' then
        Some (''invalid kind: '' @ Kind r @ '' (check repository filename '' @ filename @ '')'')
      else if Name r = [] then
        Some (''name is empty (check repository filename '' @ filename @ '')'')
      else
        let filename = Base filename in
        if Name r \<noteq> take (length filename - length (Ext filename)) filename then
          Some (''invalid name: '' @ Name r @ '' for repository filename '' @ filename)
        else
          (case find (\<lambda>writer. teams writer = None) (Writers (RepoSpec r)) of
             Some writer \<Rightarrow>
               Some (''invalid writer: '' @ writer @ '' doesn't exist (check repository filename ''
                     @ filename @ '')'')
           | None \<Rightarrow>
          (case find (\<lambda>reader. teams reader = None) (Readers (RepoSpec r)) of
             Some reader \<Rightarrow>
               Some (''invalid reader: '' @ reader @ '' doesn't exist (check repository filename ''
                     @ filename @ '')'')
           | None \<Rightarrow>
          (case find (\<lambda>u. externalUsers u = None) (ExternalUserReaders (RepoSpec r)) of
             Some externalUserReader \<Rightarrow>
               Some (''invalid externalUserReader: '' @ externalUserReader
                     @ '' doesn't exist in repository filename '' @ filename)
           | None \<Rightarrow>
          (case find (\<lambda>u. externalUsers u = None) (ExternalUserWriters (RepoSpec r)) of
             Some externalUserWriter \<Rightarrow>
               Some (''invalid externalUserWriter: '' @ externalUserWriter
                     @ '' doesn't exist in repository filename '' @ filename)
           | None \<Rightarrow>
          (case validateRulesets Map.empty (Rulesets (RepoSpec r)) of
             Some err \<Rightarrow> Some err
           | None \<Rightarrow>
               if GithubAnsiString fs (Name r) \<noteq> Name r then
                 Some (''invalid name: '' @ Name r @ '' will be changed to ''
                       @ GithubAnsiString fs (Name r) @ '' (check repository filename ''
                       @ filename @ '')'')
               else None))))))"

type_synonym repos_state = "(string \<rightharpoonup> Repository) \<times> error list \<times> Warning list"

text \<open>
  The loop of the first phase of \<open>ReadRepositories\<close>, over the entries of the archive
  directory. \<open>entry.Name()[0]\<close> panics on an empty name.
\<close>

fun readArchivedEntries ::
    "env \<Rightarrow> string \<Rightarrow> (string \<rightharpoonup> 'team) \<Rightarrow> (string \<rightharpoonup> 'user) \<Rightarrow> FileInfo list
       \<Rightarrow> repos_state \<Rightarrow> repos_state go" where
  "readArchivedEntries fs archivedDirname teams externalUsers [] st = Returns st"
| "readArchivedEntries fs archivedDirname teams externalUsers (entry # entries) (repos, errors, warning) =
     (if entry_IsDir entry then
        readArchivedEntries fs archivedDirname teams externalUsers entries (repos, errors, warning)
      else
        (case entry_Name entry of
           [] \<Rightarrow> Panics
         | c # _ \<Rightarrow>
             if c = CHR ''.'' then
               readArchivedEntries fs archivedDirname teams externalUsers entries (repos, errors, warning)
             else if \<not> HasSuffix (entry_Name entry) ''.yaml'' then
               readArchivedEntries fs archivedDirname teams externalUsers entries
                 (repos, errors,
                  warning @ [''file '' @ entry_Name entry @ '' doesn't have a .yaml extension''])
             else
               (case NewRepository fs (Join archivedDirname (entry_Name entry)) of
                  Inl err \<Rightarrow>
                    readArchivedEntries fs archivedDirname teams externalUsers entries
                      (repos, errors @ [err], warning)
                | Inr repo \<Rightarrow>
                    (case ValidateRepository fs repo (Join archivedDirname (entry_Name entry))
                            teams externalUsers of
                       Some err \<Rightarrow>
                         readArchivedEntries fs archivedDirname teams externalUsers entries
                           (repos, errors @ [err], warning)
                     | None \<Rightarrow>
                         readArchivedEntries fs archivedDirname teams externalUsers entries
                           (repos(Name repo \<mapsto> repo\<lparr>Archived := True\<rparr>), errors, warning)))))"

text \<open>
  The second \<open>if\<close> of the loop body of \<open>recursiveReadRepositories\<close>: what is done with a
  file entry \<open>sube\<close> whose extension is \<open>.yaml\<close> and whose name is not \<open>team.yaml\<close>.
\<close>

definition readRepositoryFile ::
    "env \<Rightarrow> string \<Rightarrow> string \<Rightarrow> string \<Rightarrow> (string \<rightharpoonup> 'team) \<Rightarrow> (string \<rightharpoonup> 'user)
       \<Rightarrow> FileInfo \<Rightarrow> repos_state \<Rightarrow> repos_state" where
  "readRepositoryFile fs archivedDirPath teamDirPath teamName teams externalUsers sube st =
     (case st of (repos, errors, warnings) \<Rightarrow>
        (case NewRepository fs (Join teamDirPath (entry_Name sube)) of
           Inl err \<Rightarrow> (repos, errors @ [err], warnings)
         | Inr repo \<Rightarrow>
             (case ValidateRepository fs repo (Join teamDirPath (entry_Name sube))
                     teams externalUsers of
                Some err \<Rightarrow> (repos, errors @ [err], warnings)
              | None \<Rightarrow>
                  (case repos (Name repo) of
                     Some found \<Rightarrow>
                       let existing = (case Owner found of
                                         None \<Rightarrow> Join archivedDirPath (Name repo)
                                       | Some owner \<Rightarrow> Join owner (Name repo))
                       in (repos,
                           errors @ [''Repository '' @ Name repo @ '' defined in 2 places (check ''
                                     @ Join teamDirPath (entry_Name sube) @ '' and '' @ existing @ '')''],
                           warnings)
                   | None \<Rightarrow>
                       (repos(Name repo \<mapsto> repo\<lparr>Owner := Some teamName, Archived := False\<rparr>),
                        errors, warnings)))))"

text \<open>
  \<open>recursiveReadRepositories\<close>, in three mutually recursive functions: the function
  itself, its loop over the entries of \<open>teamDirPath\<close> (\<open>readSubentries\<close>), and the body of
  that loop for one entry (\<open>readSubentry\<close>). The map \<open>repos\<close>, which the Go function
  updates in place, is passed in and returned. The first argument bounds the depth of the
  recursion: the function is given a directory listing by the file system at every
  level, and nothing in the program bounds the descent, so a result of \<open>None\<close> stands for
  a descent deeper than the bound.
  In \<open>sube.IsDir() && sube.Name()[0] != '.'\<close> the name is only read for a directory.
\<close>

function (sequential) recursiveReadRepositories ::
    "nat \<Rightarrow> env \<Rightarrow> string \<Rightarrow> string \<Rightarrow> string \<Rightarrow> (string \<rightharpoonup> Repository)
       \<Rightarrow> (string \<rightharpoonup> 'team) \<Rightarrow> (string \<rightharpoonup> 'user) \<Rightarrow> repos_state go option"
and readSubentries ::
    "nat \<Rightarrow> env \<Rightarrow> string \<Rightarrow> string \<Rightarrow> string \<Rightarrow> (string \<rightharpoonup> 'team) \<Rightarrow> (string \<rightharpoonup> 'user)
       \<Rightarrow> FileInfo list \<Rightarrow> repos_state \<Rightarrow> repos_state go option"
and readSubentry ::
    "nat \<Rightarrow> env \<Rightarrow> string \<Rightarrow> string \<Rightarrow> string \<Rightarrow> (string \<rightharpoonup> 'team) \<Rightarrow> (string \<rightharpoonup> 'user)
       \<Rightarrow> FileInfo \<Rightarrow> repos_state \<Rightarrow> repos_state go option" where
  "recursiveReadRepositories 0 fs archivedDirPath teamDirPath teamName repos teams externalUsers = None"
| "recursiveReadRepositories (Suc depth) fs archivedDirPath teamDirPath teamName repos teams externalUsers =
     (case ReadDir fs teamDirPath of
        Inl err \<Rightarrow> Some (Returns (repos, [err], []))
      | Inr subentries \<Rightarrow>
          readSubentries depth fs archivedDirPath teamDirPath teamName teams externalUsers
            subentries (repos, [], []))"
| "readSubentries depth fs archivedDirPath teamDirPath teamName teams externalUsers [] st =
     Some (Returns st)"
| "readSubentries depth fs archivedDirPath teamDirPath teamName teams externalUsers (sube # rest) st =
     (case readSubentry depth fs archivedDirPath teamDirPath teamName teams externalUsers sube st of
        None \<Rightarrow> None
      | Some Panics \<Rightarrow> Some Panics
      | Some (Returns st') \<Rightarrow>
          readSubentries depth fs archivedDirPath teamDirPath teamName teams externalUsers rest st')"
| "readSubentry depth fs archivedDirPath teamDirPath teamName teams externalUsers sube
       (repos, errors, warnings) =
     (case (if entry_IsDir sube then
              (case entry_Name sube of
                 [] \<Rightarrow> Some Panics
               | c # _ \<Rightarrow>
                   if c \<noteq> CHR ''.'' then
                     (case recursiveReadRepositories depth fs archivedDirPath
                             (Join teamDirPath (entry_Name sube)) (entry_Name sube)
                             repos teams externalUsers of
                        None \<Rightarrow> None
                      | Some Panics \<Rightarrow> Some Panics
                      | Some (Returns (repos', suberrs, subwarns)) \<Rightarrow>
                          Some (Returns (repos', errors @ suberrs, warnings @ subwarns)))
                   else Some (Returns (repos, errors, warnings)))
            else Some (Returns (repos, errors, warnings))) of
        None \<Rightarrow> None
      | Some Panics \<Rightarrow> Some Panics
      | Some (Returns st) \<Rightarrow>
          if \<not> entry_IsDir sube \<and> Ext (entry_Name sube) = ''.yaml''
             \<and> entry_Name sube \<noteq> ''team.yaml''
          then Some (Returns (readRepositoryFile fs archivedDirPath teamDirPath teamName
                                teams externalUsers sube st))
          else Some (Returns st))"
  by pat_completeness auto

termination
  by (relation "inv_image (less_than <*lex*> less_than) (\<lambda>x. case x of
          Inl (depth, _) \<Rightarrow> (depth, 0)
        | Inr (Inl (depth, fs, archivedDirPath, teamDirPath, teamName, teams, externalUsers,
                     entries, st)) \<Rightarrow> (depth, 2 + length entries)
        | Inr (Inr (depth, _)) \<Rightarrow> (depth, 1))") auto

text \<open>The loop of the second phase of \<open>ReadRepositories\<close>, over the entries of the team root.\<close>

fun readTeamEntries ::
    "nat \<Rightarrow> env \<Rightarrow> string \<Rightarrow> string \<Rightarrow> (string \<rightharpoonup> 'team) \<Rightarrow> (string \<rightharpoonup> 'user)
       \<Rightarrow> FileInfo list \<Rightarrow> repos_state \<Rightarrow> repos_state go option" where
  "readTeamEntries depth fs archivedDirname teamDirname teams externalUsers [] st = Some (Returns st)"
| "readTeamEntries depth fs archivedDirname teamDirname teams externalUsers (team # entries)
       (repos, errors, warning) =
     (if entry_IsDir team then
        (case recursiveReadRepositories depth fs archivedDirname
                (Join teamDirname (entry_Name team)) (entry_Name team) repos teams externalUsers of
           None \<Rightarrow> None
         | Some Panics \<Rightarrow> Some Panics
         | Some (Returns (repos', suberrs, subwarns)) \<Rightarrow>
             readTeamEntries depth fs archivedDirname teamDirname teams externalUsers entries
               (repos', errors @ suberrs, warning @ subwarns))
      else readTeamEntries depth fs archivedDirname teamDirname teams externalUsers entries
             (repos, errors, warning))"

text \<open>
  \<open>ReadRepositories\<close>, in two definitions: \<open>readTeams\<close> is the function from the comment
  \<open>regular teams dir\<close> on, given the state the first phase has reached. The returned map
  is \<open>None\<close> where the Go function returns a nil map.
\<close>

type_synonym repos_result = "(string \<rightharpoonup> Repository) option \<times> error list \<times> Warning list"

definition readTeams ::
    "nat \<Rightarrow> env \<Rightarrow> string \<Rightarrow> string \<Rightarrow> (string \<rightharpoonup> 'team) \<Rightarrow> (string \<rightharpoonup> 'user)
       \<Rightarrow> repos_state \<Rightarrow> repos_result go option" where
  "readTeams depth fs archivedDirname teamDirname teams externalUsers st =
     (case st of (repos, errors, warning) \<Rightarrow>
        (case Exists fs teamDirname of
           Inl err \<Rightarrow> Some (Returns (Some repos, errors @ [err], warning))
         | Inr exist \<Rightarrow>
             if \<not> exist then Some (Returns (Some repos, errors, warning))
             else
               (case ReadDir fs teamDirname of
                  Inl err \<Rightarrow> Some (Returns (None, errors @ [err], warning))
                | Inr entries \<Rightarrow>
                    (case readTeamEntries depth fs archivedDirname teamDirname teams externalUsers
                            entries (repos, errors, warning) of
                       None \<Rightarrow> None
                     | Some Panics \<Rightarrow> Some Panics
                     | Some (Returns (repos', errors', warning')) \<Rightarrow>
                         Some (Returns (Some repos', errors', warning'))))))"

definition ReadRepositories ::
    "nat \<Rightarrow> env \<Rightarrow> string \<Rightarrow> string \<Rightarrow> (string \<rightharpoonup> 'team) \<Rightarrow> (string \<rightharpoonup> 'user)
       \<Rightarrow> repos_result go option" where
  "ReadRepositories depth fs archivedDirname teamDirname teams externalUsers =
     (case Exists fs archivedDirname of
        Inl err \<Rightarrow> Some (Returns (Some Map.empty, [err], []))
      | Inr exist \<Rightarrow>
          if exist then
            (case ReadDir fs archivedDirname of
               Inl err \<Rightarrow> Some (Returns (None, [err], []))
             | Inr entries \<Rightarrow>
                 (case readArchivedEntries fs archivedDirname teams externalUsers entries
                         (Map.empty, [], []) of
                    Panics \<Rightarrow> Some Panics
                  | Returns st \<Rightarrow>
                      readTeams depth fs archivedDirname teamDirname teams externalUsers st))
          else readTeams depth fs archivedDirname teamDirname teams externalUsers (Map.empty, [], []))"

section \<open>The directories of the walk\<close>

text \<open>
  \<open>walked fs teamDirname teamDirPath teamName\<close>: the second phase of \<open>ReadRepositories\<close>
  calls \<open>recursiveReadRepositories\<close> with the arguments \<open>teamDirPath\<close> and \<open>teamName\<close>.
  The first rule is the call made by the loop of \<open>ReadRepositories\<close> for a directory of
  the team root, the second the recursive call made for a subdirectory whose name does
  not start with a dot.
\<close>

inductive walked :: "env \<Rightarrow> string \<Rightarrow> string \<Rightarrow> string \<Rightarrow> bool" for fs teamDirname where
  team: "ReadDir fs teamDirname = Inr entries \<Longrightarrow> team \<in> set entries \<Longrightarrow> entry_IsDir team \<Longrightarrow>
         walked fs teamDirname (Join teamDirname (entry_Name team)) (entry_Name team)"
| sub:  "walked fs teamDirname teamDirPath teamName \<Longrightarrow> ReadDir fs teamDirPath = Inr subentries \<Longrightarrow>
         sube \<in> set subentries \<Longrightarrow> entry_IsDir sube \<Longrightarrow> entry_Name sube = c # cs \<Longrightarrow>
         c \<noteq> CHR ''.'' \<Longrightarrow>
         walked fs teamDirname (Join teamDirPath (entry_Name sube)) (entry_Name sube)"

text \<open>
  \<open>dirWithin depth fs teamDirPath\<close>: the directories the walk enters from \<open>teamDirPath\<close>
  are nested less than \<open>depth\<close> levels deep; \<open>teamsWithin\<close> is the same for every
  directory of the team root.
\<close>

fun dirWithin :: "nat \<Rightarrow> env \<Rightarrow> string \<Rightarrow> bool" where
  "dirWithin 0 fs teamDirPath = False"
| "dirWithin (Suc depth) fs teamDirPath =
     (case ReadDir fs teamDirPath of
        Inl err \<Rightarrow> True
      | Inr subentries \<Rightarrow>
          list_all (\<lambda>sube.
              if entry_IsDir sube \<and> (case entry_Name sube of [] \<Rightarrow> False | c # _ \<Rightarrow> c \<noteq> CHR ''.'')
              then dirWithin depth fs (Join teamDirPath (entry_Name sube))
              else True)
            subentries)"

definition teamsWithin :: "nat \<Rightarrow> env \<Rightarrow> string \<Rightarrow> bool" where
  "teamsWithin depth fs teamDirname =
     (case ReadDir fs teamDirname of
        Inl err \<Rightarrow> True
      | Inr entries \<Rightarrow>
          list_all (\<lambda>team.
              if entry_IsDir team then dirWithin depth fs (Join teamDirname (entry_Name team))
              else True)
            entries)"

section \<open>Example inputs\<close>

text \<open>Concrete values on which the theorems below are instantiated.\<close>

definition example_parameters :: "string list \<Rightarrow> bool \<Rightarrow> RuleSetParameters" where
  "example_parameters checks strict =
     \<lparr>DismissStaleReviewsOnPush = False, RequireCodeOwnerReview = True,
      RequiredApprovingReviewCount = 1, RequiredReviewThreadResolution = False,
      RequireLastPushApproval = False, RequiredStatusChecks = checks,
      StrictRequiredStatusChecksPolicy = strict\<rparr>"

definition example_repository :: "string \<Rightarrow> Repository" where
  "example_repository name =
     \<lparr>ApiVersion = ''v1'', Kind = ''Repository'', Name = name,
      RepoSpec = \<lparr>Writers = [], Readers = [], ExternalUserReaders = [], ExternalUserWriters = [],
                  IsPublic = False, AllowAutoMerge = False, DeleteBranchOnMerge = False,
                  AllowUpdateBranch = False, Rulesets = []\<rparr>,
      Archived = False, Owner = None, RenameTo = [], DirectoryPath = []\<rparr>"

definition example_ruleset :: "string \<Rightarrow> string \<Rightarrow> string list \<Rightarrow> RuleSet" where
  "example_ruleset name enforcement include =
     \<lparr>ApiVersion = ''v1'', Kind = ''Ruleset'', Name = name,
      Spec = \<lparr>Enforcement = enforcement, BypassApps = [],
              On = \<lparr>Include = include, Exclude = []\<rparr>, Rules = []\<rparr>\<rparr>"

definition example_env :: "(string \<times> FileInfo list) list \<Rightarrow> (string \<times> string) list \<Rightarrow> env" where
  "example_env dirs files =
     \<lparr>Exists = (\<lambda>p. Inr (map_of dirs p \<noteq> None)),
      ReadDir = (\<lambda>p. case map_of dirs p of
                        None \<Rightarrow> Inl (''open '' @ p @ '': no such file or directory'')
                      | Some es \<Rightarrow> Inr es),
      ReadFile = (\<lambda>p. case map_of files p of
                         None \<Rightarrow> Inl (''open '' @ p @ '': no such file or directory'')
                       | Some c \<Rightarrow> Inr c),
      UnmarshalRuleSet = (\<lambda>c. Inr (example_ruleset c ''active'' [])),
      UnmarshalRepository = (\<lambda>c. Inr (example_repository c)),
      GithubAnsiString = (\<lambda>s. s)\<rparr>"

definition fileEntry :: "string \<Rightarrow> FileInfo" where
  "fileEntry n = \<lparr>entry_Name = n, entry_IsDir = False\<rparr>"

definition dirEntry :: "string \<Rightarrow> FileInfo" where
  "dirEntry n = \<lparr>entry_Name = n, entry_IsDir = True\<rparr>"

definition no_teams :: "string \<rightharpoonup> unit" where
  "no_teams = Map.empty"

definition unreadable :: "string \<Rightarrow> env \<Rightarrow> env" where
  "unreadable dirname fs =
     fs\<lparr>ReadDir := (\<lambda>p. if p = dirname then Inl (''open '' @ p @ '': permission denied'')
                         else ReadDir fs p)\<rparr>"

definition archive_only_env :: env where
  "archive_only_env =
     example_env [(''archived'', [fileEntry ''old.yaml'']), (''teams'', [])]
                 [(''archived/old.yaml'', ''old'')]"

definition loadedMap :: "repos_result go option \<Rightarrow> (string \<rightharpoonup> Repository) option" where
  "loadedMap res = (case res of Some (Returns (Some repos, errors, warning)) \<Rightarrow> Some repos | _ \<Rightarrow> None)"

definition reportedErrors :: "repos_result go option \<Rightarrow> error list" where
  "reportedErrors res = (case res of Some (Returns (repos, errors, warning)) \<Rightarrow> errors | _ \<Rightarrow> [])"

text \<open>
  A team root with one team \<open>T\<close>, which holds the repository \<open>y\<close> and a subdirectory
  \<open>sub\<close>, which holds the repository \<open>x\<close>.
\<close>

definition nested_env :: env where
  "nested_env =
     example_env [(''teams'', [dirEntry ''T'']),
                  (''teams/T'', [dirEntry ''sub'', fileEntry ''y.yaml'', fileEntry ''team.yaml'']),
                  (''teams/T/sub'', [fileEntry ''x.yaml''])]
                 [(''teams/T/sub/x.yaml'', ''x''), (''teams/T/y.yaml'', ''y'')]"

definition loadedRepository :: "repos_result go option \<Rightarrow> string \<Rightarrow> Repository option" where
  "loadedRepository res name = (case loadedMap res of None \<Rightarrow> None | Some repos \<Rightarrow> repos name)"

text \<open>
  A repository \<open>x\<close> defined in the archive directory and in the team \<open>T\<close>; and a tree with
  files whose names start with a dot, in the archive directory and in the team \<open>T\<close>.
\<close>

definition conflict_env :: env where
  "conflict_env =
     example_env [(''archived'', [fileEntry ''x.yaml'']),
                  (''teams'', [dirEntry ''T'']),
                  (''teams/T'', [fileEntry ''x.yaml''])]
                 [(''archived/x.yaml'', ''x''), (''teams/T/x.yaml'', ''x'')]"

definition hidden_env :: env where
  "hidden_env =
     example_env [(''archived'', [fileEntry ''.z.yaml'']),
                  (''teams'', [dirEntry ''T'']),
                  (''teams/T'', [fileEntry ''.x.yaml'', fileEntry ''.y.yaml''])]
                 [(''archived/.z.yaml'', ''.z''), (''teams/T/.x.yaml'', ''.x''),
                  (''teams/T/.y.yaml'', ''other'')]"

section \<open>Properties of the comparison\<close>

lemma StringArrayEquivalent_verdict:
  "fst (StringArrayEquivalent a b) \<longleftrightarrow> set a = set b"
  by (auto simp: StringArrayEquivalent_def Let_def filter_empty_conv)

text \<open>
  C3. With the rule type \<open>required_status_checks\<close>, two parameter values compare
  equivalent exactly when their lists of status checks hold the same names, in any order,
  and their strict-policy flags are equal. (The verdict on the lists is the one of the
  helper as the specification describes it.)
\<close>

theorem required_status_checks_equivalence:
  "CompareRulesetParameters ''required_status_checks'' left right \<longleftrightarrow>
     set (RequiredStatusChecks left) = set (RequiredStatusChecks right)
     \<and> StrictRequiredStatusChecksPolicy left = StrictRequiredStatusChecksPolicy right"
proof -
  obtain res l r where eq:
    "StringArrayEquivalent (RequiredStatusChecks left) (RequiredStatusChecks right) = (res, l, r)"
    by (cases "StringArrayEquivalent (RequiredStatusChecks left) (RequiredStatusChecks right)")
  have "res \<longleftrightarrow> set (RequiredStatusChecks left) = set (RequiredStatusChecks right)"
    using StringArrayEquivalent_verdict [of "RequiredStatusChecks left" "RequiredStatusChecks right"] eq
    by simp
  then show ?thesis
    by (simp add: CompareRulesetParameters_def eq)
qed

theorem required_status_checks_equivalence_witness:
  "CompareRulesetParameters ''required_status_checks''
     (example_parameters [''a'', ''b''] True) (example_parameters [''b'', ''a''] True)
   \<and> \<not> CompareRulesetParameters ''required_status_checks''
     (example_parameters [''a'', ''b''] True) (example_parameters [''b'', ''a''] False)"
  using required_status_checks_equivalence
          [of "example_parameters [''a'', ''b''] True" "example_parameters [''b'', ''a''] True"]
        required_status_checks_equivalence
          [of "example_parameters [''a'', ''b''] True" "example_parameters [''b'', ''a''] False"]
  by (auto simp: example_parameters_def)

text \<open>
  C4. With the rule type \<open>pull_request\<close>, every parameter value is equivalent to itself,
  and changing one of the five review fields (negating a flag, or replacing the count by
  a different number) gives a value that is not equivalent to the original, whichever of
  the two is passed first.
\<close>

theorem pull_request_equivalence:
  "CompareRulesetParameters ''pull_request'' p p
   \<and> \<not> CompareRulesetParameters ''pull_request'' p
         (p\<lparr>DismissStaleReviewsOnPush := \<not> DismissStaleReviewsOnPush p\<rparr>)
   \<and> \<not> CompareRulesetParameters ''pull_request''
         (p\<lparr>DismissStaleReviewsOnPush := \<not> DismissStaleReviewsOnPush p\<rparr>) p
   \<and> \<not> CompareRulesetParameters ''pull_request'' p
         (p\<lparr>RequireCodeOwnerReview := \<not> RequireCodeOwnerReview p\<rparr>)
   \<and> \<not> CompareRulesetParameters ''pull_request''
         (p\<lparr>RequireCodeOwnerReview := \<not> RequireCodeOwnerReview p\<rparr>) p
   \<and> (n \<noteq> RequiredApprovingReviewCount p \<longrightarrow>
        \<not> CompareRulesetParameters ''pull_request'' p (p\<lparr>RequiredApprovingReviewCount := n\<rparr>)
        \<and> \<not> CompareRulesetParameters ''pull_request'' (p\<lparr>RequiredApprovingReviewCount := n\<rparr>) p)
   \<and> \<not> CompareRulesetParameters ''pull_request'' p
         (p\<lparr>RequiredReviewThreadResolution := \<not> RequiredReviewThreadResolution p\<rparr>)
   \<and> \<not> CompareRulesetParameters ''pull_request''
         (p\<lparr>RequiredReviewThreadResolution := \<not> RequiredReviewThreadResolution p\<rparr>) p
   \<and> \<not> CompareRulesetParameters ''pull_request'' p
         (p\<lparr>RequireLastPushApproval := \<not> RequireLastPushApproval p\<rparr>)
   \<and> \<not> CompareRulesetParameters ''pull_request''
         (p\<lparr>RequireLastPushApproval := \<not> RequireLastPushApproval p\<rparr>) p"
  by (auto simp: CompareRulesetParameters_def)

theorem pull_request_equivalence_witness:
  "(2 :: 64 word) \<noteq> RequiredApprovingReviewCount (example_parameters [] False)
   \<and> CompareRulesetParameters ''pull_request'' (example_parameters [] False) (example_parameters [] False)
   \<and> \<not> CompareRulesetParameters ''pull_request'' (example_parameters [] False)
         ((example_parameters [] False)\<lparr>RequiredApprovingReviewCount := 2\<rparr>)"
  using pull_request_equivalence [of "example_parameters [] False" 2]
  by (simp add: example_parameters_def)

text \<open>
  C8. A rule type other than \<open>required_signatures\<close>, \<open>pull_request\<close> and
  \<open>required_status_checks\<close> makes every pair of parameter values non-equivalent.
\<close>

theorem unknown_ruletype_not_equivalent:
  "ruletype \<noteq> ''required_signatures'' \<Longrightarrow> ruletype \<noteq> ''pull_request''
   \<Longrightarrow> ruletype \<noteq> ''required_status_checks''
   \<Longrightarrow> \<not> CompareRulesetParameters ruletype left right"
  by (simp add: CompareRulesetParameters_def)

theorem unknown_ruletype_not_equivalent_witness:
  "''deletion'' \<noteq> ''required_signatures'' \<and> ''deletion'' \<noteq> ''pull_request''
   \<and> ''deletion'' \<noteq> ''required_status_checks''
   \<and> \<not> CompareRulesetParameters ''deletion'' (example_parameters [] False) (example_parameters [] False)"
  using unknown_ruletype_not_equivalent
          [of "''deletion''" "example_parameters [] False" "example_parameters [] False"]
  by simp

section \<open>Properties of rule set validation and of the rule set reader\<close>

text \<open>
  C6. The claim is that the enforcement values \<open>disabled\<close>, \<open>active\<close> and \<open>evaluate\<close> pass
  the enforcement check of \<open>Validate\<close>. The check compares with \<open>disable\<close>: a rule set
  that passes every other check and has the enforcement \<open>disabled\<close>, the value the
  comment on the field lists, is rejected.
\<close>

theorem Validate_rejects_disabled:
  "Validate (example_ruleset ''main'' ''disabled'' []) ''rulesets/main.yaml''
     = Returns (Some ''invalid enforcement: disabled for ruleset filename main.yaml'')"
  by (simp add: Validate_def example_ruleset_def Base_def Ext_def Let_def)

lemma validateInclude_returns:
  "\<forall>on \<in> set ons. on \<noteq> [] \<Longrightarrow> \<exists>res. validateInclude filename ons = Returns res"
  by (induction ons) (auto split: list.splits)

lemma Validate_returns:
  assumes "\<forall>on \<in> set (Include (On (Spec r))). on \<noteq> []"
  shows "\<exists>res. Validate r filename = Returns res"
  using validateInclude_returns [OF assms]
  by (auto simp: Validate_def Let_def split: option.splits)

text \<open>
  C9. \<open>Validate\<close> returns (an error or nil) whenever no entry of the include list is the
  empty string, and there is a rule set whose include list holds the empty string on
  which it panics instead of returning.
\<close>

theorem Validate_total_without_empty_include:
  "((\<forall>on \<in> set (Include (On (Spec r))). on \<noteq> []) \<longrightarrow> (\<exists>res. Validate r filename = Returns res))
   \<and> (\<exists>r' filename'. [] \<in> set (Include (On (Spec r'))) \<and> Validate r' filename' = Panics)"
proof (intro conjI impI)
  assume "\<forall>on \<in> set (Include (On (Spec r))). on \<noteq> []"
  then show "\<exists>res. Validate r filename = Returns res" by (rule Validate_returns)
next
  have "[] \<in> set (Include (On (Spec (example_ruleset ''main'' ''active'' [''main'', '''']))))"
    by (simp add: example_ruleset_def)
  moreover have "Validate (example_ruleset ''main'' ''active'' [''main'', ''''])
                   ''rulesets/main.yaml'' = Panics"
    by (simp add: Validate_def example_ruleset_def Base_def Ext_def Let_def)
  ultimately show "\<exists>r' filename'. [] \<in> set (Include (On (Spec r'))) \<and> Validate r' filename' = Panics"
    by blast
qed

theorem Validate_total_without_empty_include_witness:
  "[] \<notin> set (Include (On (Spec (example_ruleset ''main'' ''active'' [''~ALL'', ''main'']))))
   \<and> Validate (example_ruleset ''main'' ''active'' [''~ALL'', ''main'']) ''rulesets/main.yaml''
       = Returns None"
  using Validate_total_without_empty_include
          [of "example_ruleset ''main'' ''active'' [''~ALL'', ''main'']" "''rulesets/main.yaml''"]
  by (simp add: Validate_def example_ruleset_def Base_def Ext_def Let_def)

lemma readRuleSetEntries_directories:
  "\<forall>e \<in> set entries. entry_IsDir e \<Longrightarrow>
     readRuleSetEntries fs dirname entries (rulesets, errors, warning)
       = Returns (rulesets, errors, warning)"
  by (induction entries) auto

text \<open>
  C7. \<open>ReadRuleSetDirectory\<close> returns the empty map, no error and no warning when the
  directory does not exist, and when it exists and its listing holds no file (no entry
  at all, or subdirectories only).
\<close>

theorem ReadRuleSetDirectory_empty:
  "(Exists fs dirname = Inr False \<longrightarrow> ReadRuleSetDirectory fs dirname = Returns (Map.empty, [], []))
   \<and> (Exists fs dirname = Inr True \<and> ReadDir fs dirname = Inr entries
        \<and> (\<forall>e \<in> set entries. entry_IsDir e)
      \<longrightarrow> ReadRuleSetDirectory fs dirname = Returns (Map.empty, [], []))"
  by (simp add: ReadRuleSetDirectory_def readRuleSetEntries_directories)

theorem ReadRuleSetDirectory_empty_witness:
  "Exists (example_env [] []) ''rulesets'' = Inr False
   \<and> ReadRuleSetDirectory (example_env [] []) ''rulesets'' = Returns (Map.empty, [], [])
   \<and> Exists (example_env [(''rulesets'', [])] []) ''rulesets'' = Inr True
   \<and> ReadDir (example_env [(''rulesets'', [])] []) ''rulesets'' = Inr []
   \<and> ReadRuleSetDirectory (example_env [(''rulesets'', [])] []) ''rulesets'' = Returns (Map.empty, [], [])"
  using ReadRuleSetDirectory_empty [of "example_env [] []" "''rulesets''" "[]"]
        ReadRuleSetDirectory_empty [of "example_env [(''rulesets'', [])] []" "''rulesets''" "[]"]
  by (simp add: example_env_def)

section \<open>Properties of the repository reader\<close>

text \<open>
  C10. When listing the archive directory fails, and when listing the team root fails
  after the team root was found to exist, \<open>ReadRepositories\<close> returns a nil map with the
  error appended; the repositories the first phase has put into the map are not
  returned. When one of the two existence checks fails, the map built so far is returned.
\<close>

theorem ReadRepositories_nil_map_on_ReadDir_error:
  "(Exists fs archivedDirname = Inr True \<and> ReadDir fs archivedDirname = Inl err
      \<longrightarrow> ReadRepositories depth fs archivedDirname teamDirname teams externalUsers
            = Some (Returns (None, [err], [])))
   \<and> (Exists fs archivedDirname = Inr True \<and> ReadDir fs archivedDirname = Inr entries
        \<and> readArchivedEntries fs archivedDirname teams externalUsers entries (Map.empty, [], [])
            = Returns (repos, errors, warning)
        \<and> Exists fs teamDirname = Inr True \<and> ReadDir fs teamDirname = Inl err
      \<longrightarrow> ReadRepositories depth fs archivedDirname teamDirname teams externalUsers
            = Some (Returns (None, errors @ [err], warning)))
   \<and> (Exists fs archivedDirname = Inr False
        \<and> Exists fs teamDirname = Inr True \<and> ReadDir fs teamDirname = Inl err
      \<longrightarrow> ReadRepositories depth fs archivedDirname teamDirname teams externalUsers
            = Some (Returns (None, [err], [])))
   \<and> (Exists fs archivedDirname = Inl err
      \<longrightarrow> ReadRepositories depth fs archivedDirname teamDirname teams externalUsers
            = Some (Returns (Some Map.empty, [err], [])))
   \<and> (Exists fs archivedDirname = Inr True \<and> ReadDir fs archivedDirname = Inr entries
        \<and> readArchivedEntries fs archivedDirname teams externalUsers entries (Map.empty, [], [])
            = Returns (repos, errors, warning)
        \<and> Exists fs teamDirname = Inl err
      \<longrightarrow> ReadRepositories depth fs archivedDirname teamDirname teams externalUsers
            = Some (Returns (Some repos, errors @ [err], warning)))
   \<and> (Exists fs archivedDirname = Inr False \<and> Exists fs teamDirname = Inl err
      \<longrightarrow> ReadRepositories depth fs archivedDirname teamDirname teams externalUsers
            = Some (Returns (Some Map.empty, [err], [])))"
  by (simp add: ReadRepositories_def readTeams_def)

lemma archive_only_phase1:
  "\<exists>repos. readArchivedEntries (unreadable ''teams'' archive_only_env) ''archived'' no_teams no_teams
       [fileEntry ''old.yaml''] (Map.empty, [], []) = Returns (repos, [], []) \<and> repos ''old'' \<noteq> None"
  by (simp add: archive_only_env_def unreadable_def example_env_def fileEntry_def HasSuffix_def
      NewRepository_def ValidateRepository_def example_repository_def Join_def Clean_def
      clean_step_def Base_def Ext_def Let_def Dir_def)

theorem ReadRepositories_nil_map_on_ReadDir_error_witness:
  "loadedMap (ReadRepositories 0 archive_only_env ''archived'' ''teams'' no_teams no_teams) \<noteq> None
   \<and> Exists (unreadable ''teams'' archive_only_env) ''teams'' = Inr True
   \<and> ReadDir (unreadable ''teams'' archive_only_env) ''teams'' = Inl ''open teams: permission denied''
   \<and> ReadRepositories 0 (unreadable ''teams'' archive_only_env) ''archived'' ''teams'' no_teams no_teams
       = Some (Returns (None, [''open teams: permission denied''], []))"
proof -
  let ?fs = "unreadable ''teams'' archive_only_env"
  obtain repos where p1: "readArchivedEntries ?fs ''archived'' no_teams no_teams
       [fileEntry ''old.yaml''] (Map.empty, [], []) = Returns (repos, [], [])"
    using archive_only_phase1 by blast
  have e1: "Exists ?fs ''archived'' = Inr True"
    and e2: "ReadDir ?fs ''archived'' = Inr [fileEntry ''old.yaml'']"
    and e3: "Exists ?fs ''teams'' = Inr True"
    and e4: "ReadDir ?fs ''teams'' = Inl ''open teams: permission denied''"
    by (simp_all add: archive_only_env_def unreadable_def example_env_def)
  have "ReadRepositories 0 ?fs ''archived'' ''teams'' no_teams no_teams
       = Some (Returns (None, [] @ [''open teams: permission denied''], []))"
    using ReadRepositories_nil_map_on_ReadDir_error
            [of ?fs "''archived''" "''open teams: permission denied''" 0 "''teams''" no_teams no_teams
                "[fileEntry ''old.yaml'']" repos "[]" "[]"]
          p1 e1 e2 e3 e4 by blast
  moreover have "loadedMap (ReadRepositories 0 archive_only_env ''archived'' ''teams'' no_teams no_teams) \<noteq> None"
    by (simp add: loadedMap_def ReadRepositories_def readTeams_def archive_only_env_def example_env_def fileEntry_def HasSuffix_def
      NewRepository_def ValidateRepository_def example_repository_def Join_def Clean_def
      clean_step_def Base_def Ext_def Let_def Dir_def)
  ultimately show ?thesis using e3 e4 by simp
qed

subsection \<open>The loop bodies, case by case\<close>

lemma readRepositoryFile_cases:
  assumes "readRepositoryFile fs archivedDirPath teamDirPath teamName teams externalUsers sube
             (repos, errors, warnings) = (repos', errors', warnings')"
  obtains (rejected) err where "repos' = repos" "errors' = errors @ [err]" "warnings' = warnings"
  | (inserted) repo where
      "NewRepository fs (Join teamDirPath (entry_Name sube)) = Inr repo"
      "ValidateRepository fs repo (Join teamDirPath (entry_Name sube)) teams externalUsers = None"
      "repos (Name repo) = None"
      "repos' = repos(Name repo \<mapsto> repo\<lparr>Owner := Some teamName, Archived := False\<rparr>)"
      "errors' = errors" "warnings' = warnings"
  using assms
  by (auto simp: readRepositoryFile_def Let_def split: sum.splits option.splits)

lemma readSubentry_cases:
  assumes "readSubentry depth fs archivedDirPath teamDirPath teamName teams externalUsers sube
             (repos, errors, warnings) = Some (Returns (repos', errors', warnings'))"
  obtains (directory) c cs suberrs subwarns where
      "entry_IsDir sube" "entry_Name sube = c # cs" "c \<noteq> CHR ''.''"
      "recursiveReadRepositories depth fs archivedDirPath (Join teamDirPath (entry_Name sube))
         (entry_Name sube) repos teams externalUsers = Some (Returns (repos', suberrs, subwarns))"
      "errors' = errors @ suberrs" "warnings' = warnings @ subwarns"
  | (yaml) "\<not> entry_IsDir sube" "Ext (entry_Name sube) = ''.yaml''" "entry_Name sube \<noteq> ''team.yaml''"
      "readRepositoryFile fs archivedDirPath teamDirPath teamName teams externalUsers sube
         (repos, errors, warnings) = (repos', errors', warnings')"
  | (skipped) "repos' = repos" "errors' = errors" "warnings' = warnings"
  using assms
  by (auto split: if_splits list.splits option.splits go.splits)


lemma walk_invariant:
  fixes Q :: "(string \<rightharpoonup> Repository) \<Rightarrow> (string \<rightharpoonup> Repository) \<Rightarrow> bool"
  assumes refl: "\<And>m. Q m m"
    and trans: "\<And>a b c. Q a b \<Longrightarrow> Q b c \<Longrightarrow> Q a c"
    and step: "\<And>p t listing sube m e w m' e' w'.
        walked fs root p t \<Longrightarrow> ReadDir fs p = Inr listing \<Longrightarrow> sube \<in> set listing \<Longrightarrow>
        \<not> entry_IsDir sube \<Longrightarrow> Ext (entry_Name sube) = ''.yaml'' \<Longrightarrow>
        entry_Name sube \<noteq> ''team.yaml'' \<Longrightarrow>
        readRepositoryFile fs arch p t teams ext sube (m, e, w) = (m', e', w') \<Longrightarrow> Q m m'"
  shows "walked fs root p t \<Longrightarrow>
         recursiveReadRepositories depth fs arch p t repos teams ext
           = Some (Returns (repos', errors', warnings')) \<Longrightarrow>
         Q repos repos'"
proof (induction depth arbitrary: p t repos repos' errors' warnings')
  case 0
  then show ?case by simp
next
  case (Suc depth)
  show ?case
  proof (cases "ReadDir fs p")
    case (Inl err)
    with Suc.prems(2) have "repos' = repos" by simp
    then show ?thesis by (simp add: refl)
  next
    case (Inr listing)
    have body: "Q m m'"
      if "sube \<in> set listing"
        and "readSubentry depth fs arch p t teams ext sube (m, e, w) = Some (Returns (m', e', w'))"
      for sube m e w m' e' w'
      using that(2)
    proof (cases rule: readSubentry_cases)
      case (directory c cs suberrs subwarns)
      have "walked fs root (Join p (entry_Name sube)) (entry_Name sube)"
        using walked.sub [OF Suc.prems(1) Inr that(1) directory(1) directory(2) directory(3)] .
      then show ?thesis using Suc.IH directory(4) by blast
    next
      case yaml
      then show ?thesis using step [OF Suc.prems(1) Inr that(1)] by blast
    next
      case skipped
      then show ?thesis by (simp add: refl)
    qed
    have loop: "Q m m'"
      if "set entries \<subseteq> set listing"
        and "readSubentries depth fs arch p t teams ext entries (m, e, w) = Some (Returns (m', e', w'))"
      for entries m e w m' e' w'
      using that
    proof (induction entries arbitrary: m e w)
      case Nil
      then show ?case by (simp add: refl)
    next
      case (Cons sube rest)
      from Cons.prems(2) obtain m1 e1 w1 where
        one: "readSubentry depth fs arch p t teams ext sube (m, e, w) = Some (Returns (m1, e1, w1))"
        and more: "readSubentries depth fs arch p t teams ext rest (m1, e1, w1) = Some (Returns (m', e', w'))"
        by (auto split: option.splits go.splits)
      have "Q m m1" using body [OF _ one] Cons.prems(1) by simp
      moreover have "Q m1 m'" using Cons.IH [OF _ more] Cons.prems(1) by simp
      ultimately show ?case by (rule trans)
    qed
    from Suc.prems(2) Inr
    have "readSubentries depth fs arch p t teams ext listing (repos, [], [])
            = Some (Returns (repos', errors', warnings'))" by simp
    then show ?thesis using loop [of listing] by blast
  qed
qed


lemma team_walk_invariant:
  fixes Q :: "(string \<rightharpoonup> Repository) \<Rightarrow> (string \<rightharpoonup> Repository) \<Rightarrow> bool"
  assumes refl: "\<And>m. Q m m"
    and trans: "\<And>a b c. Q a b \<Longrightarrow> Q b c \<Longrightarrow> Q a c"
    and step: "\<And>p t listing sube m e w m' e' w'.
        walked fs root p t \<Longrightarrow> ReadDir fs p = Inr listing \<Longrightarrow> sube \<in> set listing \<Longrightarrow>
        \<not> entry_IsDir sube \<Longrightarrow> Ext (entry_Name sube) = ''.yaml'' \<Longrightarrow>
        entry_Name sube \<noteq> ''team.yaml'' \<Longrightarrow>
        readRepositoryFile fs arch p t teams ext sube (m, e, w) = (m', e', w') \<Longrightarrow> Q m m'"
    and listing: "ReadDir fs root = Inr listing"
  shows "set entries \<subseteq> set listing \<Longrightarrow>
         readTeamEntries depth fs arch root teams ext entries (repos, errors, warning)
           = Some (Returns (repos', errors', warning')) \<Longrightarrow>
         Q repos repos'"
proof (induction entries arbitrary: repos errors warning)
  case Nil
  then show ?case by (simp add: refl)
next
  case (Cons team rest)
  show ?case
  proof (cases "entry_IsDir team")
    case True
    with Cons.prems(2) obtain m1 suberrs subwarns where
      one: "recursiveReadRepositories depth fs arch (Join root (entry_Name team)) (entry_Name team)
              repos teams ext = Some (Returns (m1, suberrs, subwarns))"
      and more: "readTeamEntries depth fs arch root teams ext rest
              (m1, errors @ suberrs, warning @ subwarns) = Some (Returns (repos', errors', warning'))"
      by (auto split: option.splits go.splits)
    have w: "walked fs root (Join root (entry_Name team)) (entry_Name team)"
      using walked.team [OF listing _ True] Cons.prems(1) by simp
    have "Q repos m1"
      apply (rule walk_invariant [where Q = Q, OF _ _ _ w one])
        apply (rule refl)
       apply (erule trans, assumption)
      apply (rule step; assumption)
      done
    moreover have "Q m1 repos'" using Cons.IH [OF _ more] Cons.prems(1) by simp
    ultimately show ?thesis by (rule trans)
  next
    case False
    with Cons.prems(2) have "readTeamEntries depth fs arch root teams ext rest
        (repos, errors, warning) = Some (Returns (repos', errors', warning'))" by simp
    then show ?thesis using Cons.IH Cons.prems(1) by simp
  qed
qed

lemma NewRepository_no_owner:
  "NewRepository fs filename = Inr repo \<Longrightarrow> Owner repo = None"
  by (auto simp: NewRepository_def split: sum.splits)

lemma readArchivedEntries_Cons_cases:
  assumes "readArchivedEntries fs arch teams ext (entry # rest) (m, e, w) = Returns (m', e', w')"
  obtains (passed) e1 w1 where
      "readArchivedEntries fs arch teams ext rest (m, e1, w1) = Returns (m', e', w')"
  | (archived) c cs repo where
      "\<not> entry_IsDir entry" "entry_Name entry = c # cs" "c \<noteq> CHR ''.''"
      "HasSuffix (entry_Name entry) ''.yaml''"
      "NewRepository fs (Join arch (entry_Name entry)) = Inr repo"
      "ValidateRepository fs repo (Join arch (entry_Name entry)) teams ext = None"
      "readArchivedEntries fs arch teams ext rest (m(Name repo \<mapsto> repo\<lparr>Archived := True\<rparr>), e, w)
         = Returns (m', e', w')"
  using assms
  by (auto split: if_splits list.splits sum.splits option.splits)

lemma readArchivedEntries_archived:
  "readArchivedEntries fs arch teams ext entries (m, e, w) = Returns (m', e', w') \<Longrightarrow>
   \<forall>k r. m k = Some r \<longrightarrow> Archived r \<and> Owner r = None \<Longrightarrow>
   \<forall>k r. m' k = Some r \<longrightarrow> Archived r \<and> Owner r = None"
proof (induction entries arbitrary: m e w)
  case Nil
  then show ?case by simp
next
  case (Cons entry rest)
  from Cons.prems(1) show ?case
  proof (cases rule: readArchivedEntries_Cons_cases)
    case (passed e1 w1)
    then show ?thesis using Cons.IH Cons.prems(2) by blast
  next
    case (archived c cs repo)
    have "Owner repo = None" using archived(5) by (rule NewRepository_no_owner)
    then have "\<forall>k r. (m(Name repo \<mapsto> repo\<lparr>Archived := True\<rparr>)) k = Some r
                 \<longrightarrow> Archived r \<and> Owner r = None"
      using Cons.prems(2) by auto
    then show ?thesis using Cons.IH [OF archived(7)] by blast
  qed
qed


lemma subentry_invariant:
  fixes Q :: "(string \<rightharpoonup> Repository) \<Rightarrow> (string \<rightharpoonup> Repository) \<Rightarrow> bool"
  assumes refl: "\<And>m. Q m m"
    and trans: "\<And>a b c. Q a b \<Longrightarrow> Q b c \<Longrightarrow> Q a c"
    and step: "\<And>p t listing sube m e w m' e' w'.
        walked fs root p t \<Longrightarrow> ReadDir fs p = Inr listing \<Longrightarrow> sube \<in> set listing \<Longrightarrow>
        \<not> entry_IsDir sube \<Longrightarrow> Ext (entry_Name sube) = ''.yaml'' \<Longrightarrow>
        entry_Name sube \<noteq> ''team.yaml'' \<Longrightarrow>
        readRepositoryFile fs arch p t teams ext sube (m, e, w) = (m', e', w') \<Longrightarrow> Q m m'"
    and w: "walked fs root p t" and listing: "ReadDir fs p = Inr listing"
    and sube: "sube \<in> set listing"
    and run: "readSubentry depth fs arch p t teams ext sube (repos, errors, warnings)
                = Some (Returns (repos', errors', warnings'))"
  shows "Q repos repos'"
  using run
proof (cases rule: readSubentry_cases)
  case (directory c cs suberrs subwarns)
  have w': "walked fs root (Join p (entry_Name sube)) (entry_Name sube)"
    using walked.sub [OF w listing sube directory(1) directory(2) directory(3)] .
  show ?thesis
    apply (rule walk_invariant [where Q = Q, OF _ _ _ w' directory(4)])
      apply (rule refl)
     apply (erule trans, assumption)
    apply (rule step; assumption)
    done
next
  case yaml
  then show ?thesis using step [OF w listing sube] by blast
next
  case skipped
  then show ?thesis by (simp add: refl)
qed

lemma readTeams_invariant:
  fixes Q :: "(string \<rightharpoonup> Repository) \<Rightarrow> (string \<rightharpoonup> Repository) \<Rightarrow> bool"
  assumes refl: "\<And>m. Q m m"
    and trans: "\<And>a b c. Q a b \<Longrightarrow> Q b c \<Longrightarrow> Q a c"
    and step: "\<And>p t listing sube m e w m' e' w'.
        walked fs root p t \<Longrightarrow> ReadDir fs p = Inr listing \<Longrightarrow> sube \<in> set listing \<Longrightarrow>
        \<not> entry_IsDir sube \<Longrightarrow> Ext (entry_Name sube) = ''.yaml'' \<Longrightarrow>
        entry_Name sube \<noteq> ''team.yaml'' \<Longrightarrow>
        readRepositoryFile fs arch p t teams ext sube (m, e, w) = (m', e', w') \<Longrightarrow> Q m m'"
    and run: "readTeams depth fs arch root teams ext (repos, errors, warning)
                = Some (Returns (Some repos', errors', warning'))"
  shows "Q repos repos'"
proof (cases "Exists fs root")
  case (Inl err)
  with run have "repos' = repos" by (simp add: readTeams_def)
  then show ?thesis by (simp add: refl)
next
  case (Inr exist)
  show ?thesis
  proof (cases exist)
    case False
    with run Inr have "repos' = repos" by (simp add: readTeams_def)
    then show ?thesis by (simp add: refl)
  next
    case True
    with run Inr obtain listing where listing: "ReadDir fs root = Inr listing"
      and loop: "readTeamEntries depth fs arch root teams ext listing (repos, errors, warning)
                   = Some (Returns (repos', errors', warning'))"
      by (auto simp: readTeams_def split: sum.splits option.splits go.splits)
    show ?thesis
      apply (rule team_walk_invariant [where Q = Q, OF _ _ _ listing _ loop])
         apply (rule refl)
        apply (erule trans, assumption)
       apply (rule step; assumption)
      apply simp
      done
  qed
qed

text \<open>What the first phase hands over to the second.\<close>

lemma ReadRepositories_phases:
  assumes "ReadRepositories depth fs arch root teams ext = Some (Returns (Some repos, errors, warning))"
  obtains (failed) "repos = Map.empty"
  | (phases) m1 e1 w1 where
      "\<forall>k r. m1 k = Some r \<longrightarrow> Archived r \<and> Owner r = None"
      "readTeams depth fs arch root teams ext (m1, e1, w1) = Some (Returns (Some repos, errors, warning))"
proof (cases "Exists fs arch")
  case (Inl err)
  with assms have "repos = Map.empty" by (simp add: ReadRepositories_def)
  then show ?thesis by (rule failed)
next
  case (Inr exist)
  show ?thesis
  proof (cases exist)
    case False
    with assms Inr have "readTeams depth fs arch root teams ext (Map.empty, [], [])
        = Some (Returns (Some repos, errors, warning))" by (simp add: ReadRepositories_def)
    then show ?thesis using phases [of Map.empty "[]" "[]"] by simp
  next
    case True
    with assms Inr obtain entries m1 e1 w1 where
      one: "readArchivedEntries fs arch teams ext entries (Map.empty, [], []) = Returns (m1, e1, w1)"
      and two: "readTeams depth fs arch root teams ext (m1, e1, w1)
                  = Some (Returns (Some repos, errors, warning))"
      by (auto simp: ReadRepositories_def split: sum.splits go.splits)
    have "\<forall>k r. m1 k = Some r \<longrightarrow> Archived r \<and> Owner r = None"
      using readArchivedEntries_archived [OF one] by simp
    then show ?thesis using two by (rule phases)
  qed
qed

lemma walked_Join:
  assumes "walked fs root p t"
  obtains parent listing where "ReadDir fs parent = Inr listing"
    "\<lparr>entry_Name = t, entry_IsDir = True\<rparr> \<in> set listing" "p = Join parent t"
  using assms
proof (cases rule: walked.cases)
  case (team entries d)
  from team have "d = \<lparr>entry_Name = t, entry_IsDir = True\<rparr>" by simp
  with \<open>d \<in> set entries\<close> have "\<lparr>entry_Name = t, entry_IsDir = True\<rparr> \<in> set entries" by simp
  then show ?thesis using team by (intro that [of root entries]) simp_all
next
  case (sub teamDirPath teamName subentries d c cs)
  from sub have "d = \<lparr>entry_Name = t, entry_IsDir = True\<rparr>" by simp
  with \<open>d \<in> set subentries\<close> have "\<lparr>entry_Name = t, entry_IsDir = True\<rparr> \<in> set subentries" by simp
  then show ?thesis using sub by (intro that [of teamDirPath subentries]) simp_all
qed

lemma loaded_repository_source:
  assumes run: "ReadRepositories depth fs archivedDirname teamDirname teams externalUsers
                  = Some (Returns (Some repos, errors, warning))"
    and entry: "repos name = Some r" and active: "\<not> Archived r"
  shows "\<exists>parent listing teamName subentries sube repo.
           ReadDir fs parent = Inr listing
         \<and> \<lparr>entry_Name = teamName, entry_IsDir = True\<rparr> \<in> set listing
         \<and> walked fs teamDirname (Join parent teamName) teamName
         \<and> ReadDir fs (Join parent teamName) = Inr subentries \<and> sube \<in> set subentries
         \<and> \<not> entry_IsDir sube \<and> Ext (entry_Name sube) = ''.yaml''
         \<and> entry_Name sube \<noteq> ''team.yaml''
         \<and> NewRepository fs (Join (Join parent teamName) (entry_Name sube)) = Inr repo
         \<and> ValidateRepository fs repo (Join (Join parent teamName) (entry_Name sube))
              teams externalUsers = None
         \<and> r = repo\<lparr>Owner := Some teamName, Archived := False\<rparr>
         \<and> Name r = name \<and> Owner r = Some teamName \<and> Archived r = False"
proof -
  define F where "F = (\<lambda>k r. \<exists>p t subentries sube repo.
        walked fs teamDirname p t \<and> ReadDir fs p = Inr subentries \<and> sube \<in> set subentries
      \<and> \<not> entry_IsDir sube \<and> Ext (entry_Name sube) = ''.yaml'' \<and> entry_Name sube \<noteq> ''team.yaml''
      \<and> NewRepository fs (Join p (entry_Name sube)) = Inr repo
      \<and> ValidateRepository fs repo (Join p (entry_Name sube)) teams externalUsers = None
      \<and> Name repo = k \<and> r = repo\<lparr>Owner := Some t, Archived := False\<rparr>)"
  define Q where "Q = (\<lambda>(a :: string \<rightharpoonup> Repository) b. \<forall>k r. b k = Some r \<longrightarrow> a k = Some r \<or> F k r)"
  have Q_refl: "Q m m" for m by (simp add: Q_def)
  have Q_trans: "Q a c" if "Q a b" "Q b c" for a b c using that unfolding Q_def by blast
  have Q_step: "Q m m'"
    if "walked fs teamDirname p t" "ReadDir fs p = Inr listing" "sube \<in> set listing"
      "\<not> entry_IsDir sube" "Ext (entry_Name sube) = ''.yaml''" "entry_Name sube \<noteq> ''team.yaml''"
      "readRepositoryFile fs archivedDirname p t teams externalUsers sube (m, e, w) = (m', e', w')"
    for p t listing sube m e w m' e' w'
    using that(7)
  proof (cases rule: readRepositoryFile_cases)
    case (rejected err)
    then show ?thesis by (simp add: Q_def)
  next
    case (inserted repo)
    have "F (Name repo) (repo\<lparr>Owner := Some t, Archived := False\<rparr>)"
      unfolding F_def using that(1-6) inserted(1,2) by blast
    then show ?thesis using inserted(4) by (auto simp: Q_def)
  qed
  from run have "F name r"
  proof (cases rule: ReadRepositories_phases)
    case failed
    with entry show ?thesis by simp
  next
    case (phases m1 e1 w1)
    have "Q m1 repos"
      apply (rule readTeams_invariant [where Q = Q, OF _ _ _ phases(2)])
        apply (rule Q_refl)
       apply (erule Q_trans, assumption)
      apply (rule Q_step; assumption)
      done
    then have "m1 name = Some r \<or> F name r" using entry by (simp add: Q_def)
    then show ?thesis using phases(1) active by blast
  qed
  then obtain p t subentries sube repo where f:
      "walked fs teamDirname p t" "ReadDir fs p = Inr subentries" "sube \<in> set subentries"
      "\<not> entry_IsDir sube" "Ext (entry_Name sube) = ''.yaml''" "entry_Name sube \<noteq> ''team.yaml''"
      "NewRepository fs (Join p (entry_Name sube)) = Inr repo"
      "ValidateRepository fs repo (Join p (entry_Name sube)) teams externalUsers = None"
      "Name repo = name" "r = repo\<lparr>Owner := Some t, Archived := False\<rparr>"
    unfolding F_def by blast
  from f(1) obtain parent listing where g: "ReadDir fs parent = Inr listing"
      "\<lparr>entry_Name = t, entry_IsDir = True\<rparr> \<in> set listing" "p = Join parent t"
    by (rule walked_Join)
  show ?thesis
    apply (rule exI [of _ parent], rule exI [of _ listing], rule exI [of _ t],
           rule exI [of _ subentries], rule exI [of _ sube], rule exI [of _ repo])
    using f g by simp
qed

subsection \<open>Names of files and directories\<close>

text \<open>
  The last element of a joined path is the name that was joined, for a name that is a
  single path element; and a name with the extension \<open>.yaml\<close> is the validated name of
  the repository followed by that extension.
\<close>

lemma elements_append:
  "elements (xs @ CHR ''/'' # ys) cur = elements xs cur @ elements ys []"
  by (induction xs arbitrary: cur) auto

lemma elements_plain:
  "CHR ''/'' \<notin> set ys \<Longrightarrow> elements ys cur = [rev cur @ ys]"
  by (induction ys arbitrary: cur) auto

lemma join_elements_snoc:
  "join_elements (xs @ [n]) = (if xs = [] then n else join_elements xs @ ''/'' @ n)"
  by (induction xs rule: join_elements.induct) auto

lemma Base_last_element:
  assumes "n \<noteq> []" "CHR ''/'' \<notin> set n" "pre = [] \<or> last pre = CHR ''/''"
  shows "Base (pre @ n) = n"
proof -
  have hd: "hd (rev n) \<noteq> CHR ''/''"
    using assms(1,2) by (metis hd_rev last_in_set)
  have "dropWhile (\<lambda>c. c = CHR ''/'') (rev n) = rev n"
    using assms(1) hd by (cases "rev n") auto
  then have d: "dropWhile (\<lambda>c. c = CHR ''/'') (rev n @ rev pre) = rev n @ rev pre"
    using assms(1) hd by (cases "rev n") auto
  have "takeWhile (\<lambda>c. c \<noteq> CHR ''/'') (rev pre) = []"
    using assms(3) by (cases "rev pre") (auto simp: last_rev [symmetric] simp del: last_rev)
  then have t: "takeWhile (\<lambda>c. c \<noteq> CHR ''/'') (rev n @ rev pre) = rev n"
    using assms(2) by (subst takeWhile_append2) auto
  show ?thesis using assms(1) d t by (simp add: Base_def Let_def)
qed

lemma Clean_nonempty:
  "path \<noteq> [] \<Longrightarrow>
   Clean path =
     (if hd path = CHR ''/''
      then ''/'' @ join_elements (rev (fold (clean_step True) (elements path []) []))
      else if fold (clean_step False) (elements path []) [] = [] then ''.''
      else join_elements (rev (fold (clean_step False) (elements path []) [])))"
  by (cases path) (simp_all add: Clean_def Let_def del: elements.simps)

lemma Clean_last_element:
  assumes "n \<noteq> []" "CHR ''/'' \<notin> set n" "n \<noteq> ''.''" "n \<noteq> ''..''"
  shows "\<exists>pre. Clean (p @ ''/'' @ n) = pre @ n \<and> (pre = [] \<or> last pre = CHR ''/'')"
proof -
  define rooted where "rooted = (hd (p @ ''/'' @ n) = CHR ''/'')"
  define S where "S = fold (clean_step rooted) (elements p []) []"
  have "elements (p @ ''/'' @ n) [] = elements p [] @ [n]"
    using assms(2) by (simp add: elements_append elements_plain)
  then have out: "fold (clean_step rooted) (elements (p @ ''/'' @ n) []) [] = n # S"
    using assms by (simp add: S_def clean_step_def)
  have "Clean (p @ ''/'' @ n) =
          (if rooted then ''/'' @ join_elements (rev S @ [n]) else join_elements (rev S @ [n]))"
  proof (cases rooted)
    case True
    then have "hd (p @ ''/'' @ n) = CHR ''/''" by (simp add: rooted_def)
    moreover have "fold (clean_step True) (elements (p @ ''/'' @ n) []) [] = n # S"
      using out True by simp
    ultimately show ?thesis using True by (simp add: Clean_nonempty del: elements.simps)
  next
    case False
    then have "hd (p @ ''/'' @ n) \<noteq> CHR ''/''" by (simp add: rooted_def)
    moreover have "fold (clean_step False) (elements (p @ ''/'' @ n) []) [] = n # S"
      using out False by simp
    ultimately show ?thesis using False by (simp add: Clean_nonempty del: elements.simps)
  qed
  then show ?thesis
    by (cases "rev S = []"; cases rooted) (auto simp: join_elements_snoc)
qed

lemma Clean_plain:
  assumes "n \<noteq> []" "CHR ''/'' \<notin> set n" "n \<noteq> ''.''" "n \<noteq> ''..''"
  shows "Clean n = n"
proof -
  obtain c cs where n: "n = c # cs" using assms(1) by (cases n) auto
  have "c \<noteq> CHR ''/''" using assms(2) n by auto
  then show ?thesis
    using assms n elements_plain [of n "[]"] by (simp add: Clean_def clean_step_def Let_def)
qed

lemma Base_Join:
  assumes "n \<noteq> []" "CHR ''/'' \<notin> set n" "n \<noteq> ''.''" "n \<noteq> ''..''"
  shows "Base (Join p n) = n"
proof (cases "p = []")
  case True
  then have "Join p n = n" using assms by (simp add: Join_def Clean_plain)
  then show ?thesis using Base_last_element [of n "[]"] assms by simp
next
  case False
  obtain pre where "Clean (p @ ''/'' @ n) = pre @ n" "pre = [] \<or> last pre = CHR ''/''"
    using Clean_last_element [OF assms] by blast
  then show ?thesis using False assms by (simp add: Join_def Base_last_element)
qed

lemma ext_scan_suffix: "\<exists>pre. rev xs @ acc = pre @ ext_scan xs acc"
proof (induction xs arbitrary: acc)
  case Nil
  then show ?case by simp
next
  case (Cons c cs)
  show ?case using Cons.IH [of "c # acc"] by auto
qed

lemma Ext_suffix: "take (length n - length (Ext n)) n @ Ext n = n"
proof -
  obtain pre where "n = pre @ Ext n"
    using ext_scan_suffix [of "rev n" "[]"] by (auto simp: Ext_def)
  then show ?thesis by (metis append_eq_conv_conj length_append add_diff_cancel_right')
qed

lemma ValidateRepository_name:
  assumes "ValidateRepository fs r filename teams ext = None"
  shows "Name r = take (length (Base filename) - length (Ext (Base filename))) (Base filename)"
  using assms by (auto simp: ValidateRepository_def Let_def split: if_splits)

lemma yaml_file_name:
  assumes "ValidateRepository fs r (Join p n) teams ext = None"
    and "Ext n = ''.yaml''" and "CHR ''/'' \<notin> set n"
  shows "Name r @ ''.yaml'' = n"
proof -
  have "n \<noteq> []" "n \<noteq> ''.''" "n \<noteq> ''..''" using assms(2) by (auto simp: Ext_def)
  then have "Base (Join p n) = n" using assms(3) by (simp add: Base_Join)
  then have "Name r = take (length n - length (Ext n)) n"
    using ValidateRepository_name [OF assms(1)] by simp
  then show ?thesis using Ext_suffix [of n] assms(2) by simp
qed

subsection \<open>The walk returns on a tree of bounded depth\<close>

lemma recursiveReadRepositories_returns:
  "dirWithin depth fs p \<Longrightarrow>
   recursiveReadRepositories depth fs arch p t repos teams ext \<noteq> None"
proof (induction depth arbitrary: p t repos)
  case 0
  then show ?case by simp
next
  case (Suc depth)
  show ?case
  proof (cases "ReadDir fs p")
    case (Inl err)
    then show ?thesis by simp
  next
    case (Inr listing)
    let ?enter = "\<lambda>sube. if entry_IsDir sube
                         \<and> (case entry_Name sube of [] \<Rightarrow> False | c # _ \<Rightarrow> c \<noteq> CHR ''.'')
                      then dirWithin depth fs (Join p (entry_Name sube)) else True"
    have all: "list_all ?enter listing" using Suc.prems Inr by simp
    have body: "readSubentry depth fs arch p t teams ext sube (m, e, w) \<noteq> None"
      if "?enter sube" for sube m e w
      using that Suc.IH [of "Join p (entry_Name sube)" "entry_Name sube" m]
      by (auto split: list.splits option.splits go.splits)
    have loop: "readSubentries depth fs arch p t teams ext entries st \<noteq> None"
      if "list_all ?enter entries" for entries st
      using that
    proof (induction entries arbitrary: st)
      case Nil
      then show ?case by simp
    next
      case (Cons sube rest)
      obtain m e w where st: "st = (m, e, w)" by (cases st)
      have "readSubentry depth fs arch p t teams ext sube (m, e, w) \<noteq> None"
        using body Cons.prems by simp
      then show ?case using Cons.IH Cons.prems st
        by (auto simp del: readSubentry.simps split: option.splits go.splits)
    qed
    show ?thesis using loop [OF all] Inr by simp
  qed
qed

lemma readTeamEntries_returns:
  "list_all (\<lambda>team. if entry_IsDir team then dirWithin depth fs (Join root (entry_Name team))
                      else True) entries \<Longrightarrow>
   readTeamEntries depth fs arch root teams ext entries st \<noteq> None"
proof (induction entries arbitrary: st)
  case Nil
  then show ?case by simp
next
  case (Cons team rest)
  obtain m e w where st: "st = (m, e, w)" by (cases st)
  show ?case
  proof (cases "entry_IsDir team")
    case True
    then have "recursiveReadRepositories depth fs arch (Join root (entry_Name team))
                 (entry_Name team) m teams ext \<noteq> None"
      using Cons.prems by (simp add: recursiveReadRepositories_returns)
    then show ?thesis using Cons.IH Cons.prems st True
      by (auto split: option.splits go.splits)
  next
    case False
    then show ?thesis using Cons.IH Cons.prems st by simp
  qed
qed

lemma readTeams_returns:
  assumes "teamsWithin depth fs root"
  shows "readTeams depth fs arch root teams ext st \<noteq> None"
proof -
  obtain m e w where st: "st = (m, e, w)" by (cases st)
  show ?thesis
  proof (cases "ReadDir fs root")
    case (Inl err)
    then show ?thesis by (auto simp: readTeams_def st split: sum.splits)
  next
    case (Inr listing)
    have "readTeamEntries depth fs arch root teams ext listing (m, e, w) \<noteq> None"
      using assms Inr by (intro readTeamEntries_returns) (simp add: teamsWithin_def)
    then obtain res where "readTeamEntries depth fs arch root teams ext listing (m, e, w) = Some res"
      by blast
    then show ?thesis using Inr
      by (cases res) (auto simp: readTeams_def st split: sum.splits)
  qed
qed

lemma ReadRepositories_returns:
  assumes "teamsWithin depth fs root"
  shows "ReadRepositories depth fs arch root teams ext \<noteq> None"
  using readTeams_returns [OF assms]
  by (auto simp: ReadRepositories_def split: sum.splits go.splits)

subsection \<open>Owner of a repository of the team tree\<close>

lemmas example_eval =
  nested_env_def example_env_def fileEntry_def dirEntry_def no_teams_def
  example_repository_def ReadRepositories_def readTeams_def readRepositoryFile_def
  NewRepository_def ValidateRepository_def HasSuffix_def Join_def Clean_def clean_step_def
  Base_def Ext_def Dir_def Let_def loadedRepository_def loadedMap_def reportedErrors_def
  teamsWithin_def conflict_env_def hidden_env_def

text \<open>
  C1, as the code has it. \<open>ReadRepositories\<close> returns when the directories below the team
  root are nested no deeper than the bound. Every repository of the returned map that is
  not archived was read from a valid file \<open>X.yaml\<close> (not \<open>team.yaml\<close>) of a directory the
  walk entered; it is stored under its name \<open>X\<close>, with \<open>archived\<close> false, and its owner is
  the name of the directory that holds the file: the name of the top-level team
  directory for a file directly in it, and the name of the nested directory itself for a
  file further down (the recursive call passes \<open>sube.Name()\<close> on, not \<open>teamName\<close>).
\<close>

theorem team_repository_owner:
  "(teamsWithin depth fs teamDirname \<longrightarrow>
      ReadRepositories depth fs archivedDirname teamDirname teams externalUsers \<noteq> None)
   \<and> (ReadRepositories depth fs archivedDirname teamDirname teams externalUsers
          = Some (Returns (Some repos, errors, warning))
        \<and> repos name = Some r \<and> \<not> Archived r \<longrightarrow>
        (\<exists>parent listing teamName subentries sube repo.
           ReadDir fs parent = Inr listing
         \<and> \<lparr>entry_Name = teamName, entry_IsDir = True\<rparr> \<in> set listing
         \<and> walked fs teamDirname (Join parent teamName) teamName
         \<and> ReadDir fs (Join parent teamName) = Inr subentries \<and> sube \<in> set subentries
         \<and> \<not> entry_IsDir sube \<and> Ext (entry_Name sube) = ''.yaml''
         \<and> entry_Name sube \<noteq> ''team.yaml''
         \<and> NewRepository fs (Join (Join parent teamName) (entry_Name sube)) = Inr repo
         \<and> ValidateRepository fs repo (Join (Join parent teamName) (entry_Name sube))
              teams externalUsers = None
         \<and> r = repo\<lparr>Owner := Some teamName, Archived := False\<rparr>
         \<and> Name r = name \<and> Owner r = Some teamName \<and> Archived r = False
         \<and> (CHR ''/'' \<notin> set (entry_Name sube) \<longrightarrow> name @ ''.yaml'' = entry_Name sube)))"
proof (intro conjI impI)
  assume "teamsWithin depth fs teamDirname"
  then show "ReadRepositories depth fs archivedDirname teamDirname teams externalUsers \<noteq> None"
    by (rule ReadRepositories_returns)
next
  assume a: "ReadRepositories depth fs archivedDirname teamDirname teams externalUsers
          = Some (Returns (Some repos, errors, warning))
        \<and> repos name = Some r \<and> \<not> Archived r"
  then obtain parent listing teamName subentries sube repo where s:
      "ReadDir fs parent = Inr listing"
      "\<lparr>entry_Name = teamName, entry_IsDir = True\<rparr> \<in> set listing"
      "walked fs teamDirname (Join parent teamName) teamName"
      "ReadDir fs (Join parent teamName) = Inr subentries" "sube \<in> set subentries"
      "\<not> entry_IsDir sube" "Ext (entry_Name sube) = ''.yaml''"
      "entry_Name sube \<noteq> ''team.yaml''"
      "NewRepository fs (Join (Join parent teamName) (entry_Name sube)) = Inr repo"
      "ValidateRepository fs repo (Join (Join parent teamName) (entry_Name sube))
         teams externalUsers = None"
      "r = repo\<lparr>Owner := Some teamName, Archived := False\<rparr>"
      "Name r = name" "Owner r = Some teamName" "Archived r = False"
    using loaded_repository_source [of depth fs archivedDirname teamDirname teams externalUsers
                                       repos errors warning name r]
    by blast
  have "name @ ''.yaml'' = entry_Name sube" if "CHR ''/'' \<notin> set (entry_Name sube)"
    using yaml_file_name [OF s(10) s(7) that] s(11,12) by simp
  then show "\<exists>parent listing teamName subentries sube repo.
           ReadDir fs parent = Inr listing
         \<and> \<lparr>entry_Name = teamName, entry_IsDir = True\<rparr> \<in> set listing
         \<and> walked fs teamDirname (Join parent teamName) teamName
         \<and> ReadDir fs (Join parent teamName) = Inr subentries \<and> sube \<in> set subentries
         \<and> \<not> entry_IsDir sube \<and> Ext (entry_Name sube) = ''.yaml''
         \<and> entry_Name sube \<noteq> ''team.yaml''
         \<and> NewRepository fs (Join (Join parent teamName) (entry_Name sube)) = Inr repo
         \<and> ValidateRepository fs repo (Join (Join parent teamName) (entry_Name sube))
              teams externalUsers = None
         \<and> r = repo\<lparr>Owner := Some teamName, Archived := False\<rparr>
         \<and> Name r = name \<and> Owner r = Some teamName \<and> Archived r = False
         \<and> (CHR ''/'' \<notin> set (entry_Name sube) \<longrightarrow> name @ ''.yaml'' = entry_Name sube)"
    using s by blast
qed

text \<open>
  The claim as stated fails: \<open>x.yaml\<close> lies below the top-level team \<open>T\<close>, in \<open>T/sub\<close>, and
  the owner of \<open>x\<close> is \<open>sub\<close>.
\<close>

theorem nested_repository_owner_counterexample:
  "map_option Owner
     (loadedRepository (ReadRepositories 2 nested_env ''archived'' ''teams'' no_teams no_teams) ''x'')
     = Some (Some ''sub'')
   \<and> map_option Owner
     (loadedRepository (ReadRepositories 2 nested_env ''archived'' ''teams'' no_teams no_teams) ''x'')
     \<noteq> Some (Some ''T'')"
  by (simp add: example_eval eval_nat_numeral)

theorem team_repository_owner_witness:
  "teamsWithin 2 nested_env ''teams''
   \<and> (\<exists>repos errors warning r.
        ReadRepositories 2 nested_env ''archived'' ''teams'' no_teams no_teams
          = Some (Returns (Some repos, errors, warning))
        \<and> repos ''x'' = Some r \<and> \<not> Archived r
        \<and> Owner r = Some ''sub'' \<and> Name r = ''x'')"
proof -
  have w: "teamsWithin 2 nested_env ''teams''"
    by (simp add: example_eval eval_nat_numeral)
  obtain repos errors warning r where run:
      "ReadRepositories 2 nested_env ''archived'' ''teams'' no_teams no_teams
         = Some (Returns (Some repos, errors, warning))"
      "repos ''x'' = Some r" "\<not> Archived r" "Owner r = Some ''sub''"
    by (simp add: example_eval eval_nat_numeral)
  have "Name r = ''x''"
    using team_repository_owner [of 2 nested_env "''teams''" "''archived''" no_teams no_teams
                                    repos errors warning "''x''" r] run
    by blast
  then show ?thesis using w run by blast
qed

subsection \<open>Entries of the map are kept, errors are only appended\<close>

lemma readRepositoryFile_preserves:
  assumes "readRepositoryFile fs arch p t teams ext sube (m, e, w) = (m', e', w')"
    and "m k = Some v"
  shows "m' k = Some v"
  using assms(1)
proof (cases rule: readRepositoryFile_cases)
  case (rejected err)
  then show ?thesis using assms(2) by simp
next
  case (inserted repo)
  then show ?thesis using assms(2) by auto
qed

lemma walk_preserves:
  assumes "walked fs root p t"
    and "recursiveReadRepositories depth fs arch p t m teams ext = Some (Returns (m', e', w'))"
  shows "\<forall>k v. m k = Some v \<longrightarrow> m' k = Some v"
  apply (rule walk_invariant [where Q = "\<lambda>a b. \<forall>k v. a k = Some v \<longrightarrow> b k = Some v",
                              OF _ _ _ assms])
    apply simp
   apply simp
  apply (blast intro: readRepositoryFile_preserves)
  done

lemma subentry_preserves:
  assumes "walked fs root p t" "ReadDir fs p = Inr listing" "sube \<in> set listing"
    and "readSubentry depth fs arch p t teams ext sube (m, e, w) = Some (Returns (m', e', w'))"
  shows "\<forall>k v. m k = Some v \<longrightarrow> m' k = Some v"
  apply (rule subentry_invariant [where Q = "\<lambda>a b. \<forall>k v. a k = Some v \<longrightarrow> b k = Some v",
                                  OF _ _ _ assms])
    apply simp
   apply simp
  apply (blast intro: readRepositoryFile_preserves)
  done

lemma readTeams_preserves:
  assumes "readTeams depth fs arch root teams ext (m, e, w) = Some (Returns (Some m', e', w'))"
  shows "\<forall>k v. m k = Some v \<longrightarrow> m' k = Some v"
  apply (rule readTeams_invariant [where Q = "\<lambda>a b. \<forall>k v. a k = Some v \<longrightarrow> b k = Some v",
                                   OF _ _ _ assms])
    apply simp
   apply simp
  apply (blast intro: readRepositoryFile_preserves)
  done

lemma readSubentry_errors:
  assumes "readSubentry depth fs arch p t teams ext sube (m, e, w) = Some (Returns (m', e', w'))"
  shows "set e \<subseteq> set e'"
  using assms
proof (cases rule: readSubentry_cases)
  case (directory c cs suberrs subwarns)
  then show ?thesis by simp
next
  case yaml
  from yaml(4) show ?thesis by (cases rule: readRepositoryFile_cases) auto
next
  case skipped
  then show ?thesis by simp
qed

lemma readSubentries_Cons:
  assumes "readSubentries depth fs arch p t teams ext (sube # rest) (m, e, w)
             = Some (Returns (m', e', w'))"
  obtains m1 e1 w1 where
    "readSubentry depth fs arch p t teams ext sube (m, e, w) = Some (Returns (m1, e1, w1))"
    "readSubentries depth fs arch p t teams ext rest (m1, e1, w1) = Some (Returns (m', e', w'))"
  using assms by (auto simp del: readSubentry.simps split: option.splits go.splits)

lemma readSubentries_errors:
  "readSubentries depth fs arch p t teams ext entries (m, e, w) = Some (Returns (m', e', w')) \<Longrightarrow>
   set e \<subseteq> set e'"
proof (induction entries arbitrary: m e w)
  case Nil
  then show ?case by simp
next
  case (Cons sube rest)
  from Cons.prems obtain m1 e1 w1 where
    one: "readSubentry depth fs arch p t teams ext sube (m, e, w) = Some (Returns (m1, e1, w1))"
    and more: "readSubentries depth fs arch p t teams ext rest (m1, e1, w1) = Some (Returns (m', e', w'))"
    by (rule readSubentries_Cons)
  show ?case using readSubentry_errors [OF one] Cons.IH [OF more] by blast
qed

lemma readTeamEntries_Cons:
  assumes "readTeamEntries depth fs arch root teams ext (team # rest) (m, e, w)
             = Some (Returns (m', e', w'))"
  obtains (directory) m1 suberrs subwarns where "entry_IsDir team"
    "recursiveReadRepositories depth fs arch (Join root (entry_Name team)) (entry_Name team)
       m teams ext = Some (Returns (m1, suberrs, subwarns))"
    "readTeamEntries depth fs arch root teams ext rest (m1, e @ suberrs, w @ subwarns)
       = Some (Returns (m', e', w'))"
  | (other) "\<not> entry_IsDir team"
    "readTeamEntries depth fs arch root teams ext rest (m, e, w) = Some (Returns (m', e', w'))"
  using assms by (auto split: if_splits option.splits go.splits)

lemma readTeamEntries_errors:
  "readTeamEntries depth fs arch root teams ext entries (m, e, w) = Some (Returns (m', e', w')) \<Longrightarrow>
   set e \<subseteq> set e'"
proof (induction entries arbitrary: m e w)
  case Nil
  then show ?case by simp
next
  case (Cons team rest)
  from Cons.prems show ?case
  proof (cases rule: readTeamEntries_Cons)
    case (directory m1 suberrs subwarns)
    then show ?thesis using Cons.IH [OF directory(3)] by auto
  next
    case other
    then show ?thesis using Cons.IH by blast
  qed
qed

subsection \<open>A second definition of a repository\<close>

lemma readRepositoryFile_conflict:
  assumes "NewRepository fs (Join p (entry_Name sube)) = Inr repo"
    and "ValidateRepository fs repo (Join p (entry_Name sube)) teams ext = None"
    and "m (Name repo) = Some a" and "Owner a = None"
  shows "readRepositoryFile fs arch p t teams ext sube (m, e, w)
           = (m, e @ [''Repository '' @ Name repo @ '' defined in 2 places (check ''
                       @ Join p (entry_Name sube) @ '' and '' @ Join arch (Name repo) @ '')''], w)"
  using assms by (simp add: readRepositoryFile_def)


lemma readSubentries_reports:
  assumes w: "walked fs root p t" and listing: "ReadDir fs p = Inr listing"
    and hit: "\<And>m e w m' e' w'. m N = Some a \<Longrightarrow>
                readSubentry depth fs arch p t teams ext x (m, e, w) = Some (Returns (m', e', w')) \<Longrightarrow>
                msg \<in> set e'"
  shows "x \<in> set entries \<Longrightarrow> set entries \<subseteq> set listing \<Longrightarrow> m N = Some a \<Longrightarrow>
         readSubentries depth fs arch p t teams ext entries (m, e, w) = Some (Returns (m', e', w')) \<Longrightarrow>
         msg \<in> set e'"
proof (induction entries arbitrary: m e w)
  case Nil
  then show ?case by simp
next
  case (Cons sube rest)
  from Cons.prems(4) obtain m1 e1 w1 where
    one: "readSubentry depth fs arch p t teams ext sube (m, e, w) = Some (Returns (m1, e1, w1))"
    and more: "readSubentries depth fs arch p t teams ext rest (m1, e1, w1) = Some (Returns (m', e', w'))"
    by (rule readSubentries_Cons)
  have "sube \<in> set listing" using Cons.prems(2) by simp
  then have kept: "m1 N = Some a"
    using subentry_preserves [OF w listing _ one] Cons.prems(3) by blast
  show ?case
  proof (cases "x = sube")
    case True
    then have "msg \<in> set e1" using hit [of m e w m1 e1 w1] Cons.prems(3) one by blast
    then show ?thesis using readSubentries_errors [OF more] by blast
  next
    case False
    then have "x \<in> set rest" using Cons.prems(1) by simp
    then show ?thesis using Cons.IH [OF _ _ kept more] Cons.prems(2) by simp
  qed
qed

lemma walk_reports:
  assumes w: "walked fs root p t" and listing: "ReadDir fs p = Inr listing"
    and x: "x \<in> set listing"
    and hit: "\<And>depth m e w m' e' w'. m N = Some a \<Longrightarrow>
                readSubentry depth fs arch p t teams ext x (m, e, w) = Some (Returns (m', e', w')) \<Longrightarrow>
                msg \<in> set e'"
    and present: "m N = Some a"
    and run: "recursiveReadRepositories depth fs arch p t m teams ext = Some (Returns (m', es, ws))"
  shows "msg \<in> set es"
proof (cases depth)
  case 0
  with run show ?thesis by simp
next
  case (Suc d)
  with run listing have "readSubentries d fs arch p t teams ext listing (m, [], [])
      = Some (Returns (m', es, ws))" by simp
  moreover have "msg \<in> set e'"
    if "m N = Some a"
      "readSubentry d fs arch p t teams ext x (m, e, w) = Some (Returns (m', e', w'))"
    for m e w m' e' w'
    using hit [of m d e w m' e' w'] that by blast
  ultimately show ?thesis
    using readSubentries_reports [where m = m and N = N and a = a and x = x and entries = listing,
                                  OF w listing _ x _ present]
    by blast
qed

lemma file_reports:
  assumes "\<not> entry_IsDir sube" "Ext (entry_Name sube) = ''.yaml''" "entry_Name sube \<noteq> ''team.yaml''"
    and "NewRepository fs (Join p (entry_Name sube)) = Inr repo"
    and "ValidateRepository fs repo (Join p (entry_Name sube)) teams ext = None"
    and "m (Name repo) = Some a" and "Owner a = None"
    and "readSubentry depth fs arch p t teams ext sube (m, e, w) = Some (Returns (m', e', w'))"
  shows "''Repository '' @ Name repo @ '' defined in 2 places (check ''
           @ Join p (entry_Name sube) @ '' and '' @ Join arch (Name repo) @ '')'' \<in> set e'"
proof -
  define msg where "msg = ''Repository '' @ Name repo @ '' defined in 2 places (check ''
           @ Join p (entry_Name sube) @ '' and '' @ Join arch (Name repo) @ '')''"
  have conflict: "readRepositoryFile fs arch p t teams ext sube (m, e, w) = (m, e @ [msg], w)"
    unfolding msg_def
    by (rule readRepositoryFile_conflict [where m = m and a = a, OF assms(4,5,6,7)])
  from assms(8) have "msg \<in> set e'"
  proof (cases rule: readSubentry_cases)
    case (directory c cs suberrs subwarns)
    then show ?thesis using assms(1) by simp
  next
    case yaml
    then have "e' = e @ [msg]" using conflict by simp
    then show ?thesis by simp
  next
    case skipped
    then show ?thesis using assms(1,2,3,8) conflict by simp
  qed
  then show ?thesis by (simp only: msg_def)
qed

lemma directory_reports:
  assumes "entry_IsDir sube" "entry_Name sube = c # cs" "c \<noteq> CHR ''.''"
    and below: "\<And>m m' es ws. m N = Some a \<Longrightarrow>
          recursiveReadRepositories depth fs arch (Join p (entry_Name sube)) (entry_Name sube)
            m teams ext = Some (Returns (m', es, ws)) \<Longrightarrow> msg \<in> set es"
    and "m N = Some a"
    and "readSubentry depth fs arch p t teams ext sube (m, e, w) = Some (Returns (m', e', w'))"
  shows "msg \<in> set e'"
  using assms(6)
proof (cases rule: readSubentry_cases)
  case (directory c' cs' suberrs subwarns)
  then show ?thesis using below [of m] assms(5) by auto
next
  case yaml
  then show ?thesis using assms(1) by simp
next
  case skipped
  then show ?thesis using assms(1,2,3,5,6) below [of m m "[]" "[]"]
    by (auto split: option.splits go.splits)
qed


lemma readTeamEntries_reports:
  assumes listing: "ReadDir fs root = Inr listing" and dir: "entry_IsDir team"
    and below: "\<And>m m' es ws. m N = Some a \<Longrightarrow>
          recursiveReadRepositories depth fs arch (Join root (entry_Name team)) (entry_Name team)
            m teams ext = Some (Returns (m', es, ws)) \<Longrightarrow> msg \<in> set es"
  shows "team \<in> set entries \<Longrightarrow> set entries \<subseteq> set listing \<Longrightarrow> m N = Some a \<Longrightarrow>
         readTeamEntries depth fs arch root teams ext entries (m, e, w) = Some (Returns (m', e', w')) \<Longrightarrow>
         msg \<in> set e'"
proof (induction entries arbitrary: m e w)
  case Nil
  then show ?case by simp
next
  case (Cons x rest)
  from Cons.prems(4) show ?case
  proof (cases rule: readTeamEntries_Cons)
    case (directory m1 suberrs subwarns)
    have "walked fs root (Join root (entry_Name x)) (entry_Name x)"
      using walked.team [OF listing _ directory(1)] Cons.prems(2) by simp
    then have kept: "m1 N = Some a"
      using walk_preserves [OF _ directory(2)] Cons.prems(3) by blast
    show ?thesis
    proof (cases "team = x")
      case True
      then have "msg \<in> set suberrs" using below [of m m1 suberrs subwarns] Cons.prems(3) directory(2) by simp
      then show ?thesis using readTeamEntries_errors [OF directory(3)] by auto
    next
      case False
      then have "team \<in> set rest" using Cons.prems(1) by simp
      then show ?thesis using Cons.IH [OF _ _ kept directory(3)] Cons.prems(2) by simp
    qed
  next
    case other
    then have "team \<in> set rest" using Cons.prems(1) dir by auto
    then show ?thesis using Cons.IH [OF _ _ Cons.prems(3) other(2)] Cons.prems(2) by simp
  qed
qed

lemma walked_reports:
  assumes listing: "ReadDir fs root = Inr listing" and present: "m N = Some a"
    and run: "readTeamEntries depth fs arch root teams ext listing (m, e, w)
                = Some (Returns (m', e', w'))"
  shows "walked fs root p t \<Longrightarrow>
         (\<forall>d m m' es ws. m N = Some a \<longrightarrow>
            recursiveReadRepositories d fs arch p t m teams ext = Some (Returns (m', es, ws)) \<longrightarrow>
            msg \<in> set es) \<longrightarrow>
         msg \<in> set e'"
proof (induction rule: walked.induct)
  case (team entries team)
  then have same: "entries = listing" using listing by simp
  show ?case
  proof
    assume flows: "\<forall>d m m' es ws. m N = Some a \<longrightarrow>
            recursiveReadRepositories d fs arch (Join root (entry_Name team)) (entry_Name team)
              m teams ext = Some (Returns (m', es, ws)) \<longrightarrow> msg \<in> set es"
    show "msg \<in> set e'"
    proof (rule readTeamEntries_reports [where m = m and N = N and a = a and team = team
                                          and entries = listing, OF listing team(3) _ _ _ present run])
      show "msg \<in> set es"
        if "m N = Some a"
          "recursiveReadRepositories depth fs arch (Join root (entry_Name team)) (entry_Name team)
             m teams ext = Some (Returns (m', es, ws))"
        for m m' es ws
        using flows that by blast
      show "team \<in> set listing" using team(2) same by simp
      show "set listing \<subseteq> set listing" by simp
    qed
  qed
next
  case (sub teamDirPath teamName subentries sube c cs)
  show ?case
  proof
    assume flows: "\<forall>d m m' es ws. m N = Some a \<longrightarrow>
            recursiveReadRepositories d fs arch (Join teamDirPath (entry_Name sube)) (entry_Name sube)
              m teams ext = Some (Returns (m', es, ws)) \<longrightarrow> msg \<in> set es"
    have hit: "msg \<in> set e'"
      if "m N = Some a"
        "readSubentry d fs arch teamDirPath teamName teams ext sube (m, e, w)
           = Some (Returns (m', e', w'))"
      for d m e w m' e' w'
    proof (rule directory_reports [where m = m and N = N and a = a, OF sub(4) sub(5) sub(6) _ that])
      show "msg \<in> set es"
        if "m N = Some a"
          "recursiveReadRepositories d fs arch (Join teamDirPath (entry_Name sube)) (entry_Name sube)
             m teams ext = Some (Returns (m', es, ws))"
        for m m' es ws
        using flows that by blast
    qed
    have "msg \<in> set es"
      if "m N = Some a"
        "recursiveReadRepositories d fs arch teamDirPath teamName m teams ext
           = Some (Returns (m', es, ws))"
      for d m m' es ws
      using walk_reports [where m = m and N = N and a = a and x = sube and msg = msg,
                          OF sub(1) sub(2) sub(3) _ that] hit
      by blast
    then show "msg \<in> set e'" using sub.IH by blast
  qed
qed

subsection \<open>What the archive phase defines\<close>

lemma readArchivedEntries_keeps:
  "readArchivedEntries fs arch teams ext entries (m, e, w) = Returns (m', e', w') \<Longrightarrow>
   m k \<noteq> None \<Longrightarrow> m' k \<noteq> None"
proof (induction entries arbitrary: m e w)
  case Nil
  then show ?case by simp
next
  case (Cons entry rest)
  from Cons.prems(1) show ?case
  proof (cases rule: readArchivedEntries_Cons_cases)
    case (passed e1 w1)
    then show ?thesis using Cons.IH Cons.prems(2) by blast
  next
    case (archived c cs repo)
    then show ?thesis using Cons.IH [OF archived(7)] Cons.prems(2) by simp
  qed
qed

lemma readArchivedEntries_defines:
  assumes "\<not> entry_IsDir entry" "entry_Name entry = c # cs" "c \<noteq> CHR ''.''"
    "HasSuffix (entry_Name entry) ''.yaml''"
    "NewRepository fs (Join arch (entry_Name entry)) = Inr archived"
    "ValidateRepository fs archived (Join arch (entry_Name entry)) teams ext = None"
  shows "entry \<in> set entries \<Longrightarrow>
         readArchivedEntries fs arch teams ext entries (m, e, w) = Returns (m', e', w') \<Longrightarrow>
         m' (Name archived) \<noteq> None"
proof (induction entries arbitrary: m e w)
  case Nil
  then show ?case by simp
next
  case (Cons x rest)
  show ?case
  proof (cases "x = entry")
    case True
    then have "readArchivedEntries fs arch teams ext rest
                 (m(Name archived \<mapsto> archived\<lparr>Archived := True\<rparr>), e, w) = Returns (m', e', w')"
      using Cons.prems(2) assms by simp
    then show ?thesis using readArchivedEntries_keeps by fastforce
  next
    case False
    then have member: "entry \<in> set rest" using Cons.prems(1) by simp
    from Cons.prems(2) show ?thesis
    proof (cases rule: readArchivedEntries_Cons_cases)
      case (passed e1 w1)
      then show ?thesis using Cons.IH [OF member] by blast
    next
      case (archived c' cs' repo)
      then show ?thesis using Cons.IH [OF member archived(7)] by blast
    qed
  qed
qed

subsection \<open>A repository defined in the archive and in a team\<close>

text \<open>
  C2, as the code has it. \<open>ReadRepositories\<close> returns when the directories below the team
  root are nested no deeper than the bound. When it returns a map, and a valid file of the
  archive directory and a valid file of a directory the team walk enters declare the same
  name, then the error list holds the message that names the team file and the archive
  location; reading the team file appends exactly that one error and leaves the map as it
  is; and the returned map still holds the name, with the archived definition (archived,
  no owner): the team definition is not inserted, and the archived one is not removed.
\<close>

theorem duplicate_repository_reported:
  "(teamsWithin depth fs teamDirname \<longrightarrow>
      ReadRepositories depth fs archivedDirname teamDirname teams externalUsers \<noteq> None)
   \<and> (ReadRepositories depth fs archivedDirname teamDirname teams externalUsers
          = Some (Returns (Some repos, errors, warning))
        \<and> Exists fs archivedDirname = Inr True \<and> ReadDir fs archivedDirname = Inr entries
        \<and> entry \<in> set entries \<and> \<not> entry_IsDir entry
        \<and> entry_Name entry = c # cs \<and> c \<noteq> CHR ''.'' \<and> HasSuffix (entry_Name entry) ''.yaml''
        \<and> NewRepository fs (Join archivedDirname (entry_Name entry)) = Inr archived
        \<and> ValidateRepository fs archived (Join archivedDirname (entry_Name entry))
             teams externalUsers = None
        \<and> Exists fs teamDirname = Inr True
        \<and> walked fs teamDirname teamDirPath teamName
        \<and> ReadDir fs teamDirPath = Inr subentries \<and> sube \<in> set subentries
        \<and> \<not> entry_IsDir sube \<and> Ext (entry_Name sube) = ''.yaml''
        \<and> entry_Name sube \<noteq> ''team.yaml''
        \<and> NewRepository fs (Join teamDirPath (entry_Name sube)) = Inr repo
        \<and> ValidateRepository fs repo (Join teamDirPath (entry_Name sube))
             teams externalUsers = None
        \<and> Name repo = Name archived
      \<longrightarrow>
        ''Repository '' @ Name repo @ '' defined in 2 places (check ''
           @ Join teamDirPath (entry_Name sube) @ '' and '' @ Join archivedDirname (Name repo)
           @ '')'' \<in> set errors
        \<and> (\<exists>a. repos (Name repo) = Some a \<and> Archived a \<and> Owner a = None)
        \<and> (\<forall>m e w a. m (Name repo) = Some a \<and> Owner a = None \<longrightarrow>
              readRepositoryFile fs archivedDirname teamDirPath teamName teams externalUsers sube
                (m, e, w)
              = (m, e @ [''Repository '' @ Name repo @ '' defined in 2 places (check ''
                         @ Join teamDirPath (entry_Name sube) @ '' and ''
                         @ Join archivedDirname (Name repo) @ '')''], w)))"
proof (intro conjI impI)
  assume "teamsWithin depth fs teamDirname"
  then show "ReadRepositories depth fs archivedDirname teamDirname teams externalUsers \<noteq> None"
    by (rule ReadRepositories_returns)
next
  define msg where "msg = ''Repository '' @ Name repo @ '' defined in 2 places (check ''
           @ Join teamDirPath (entry_Name sube) @ '' and '' @ Join archivedDirname (Name repo)
           @ '')''"
  assume a: "ReadRepositories depth fs archivedDirname teamDirname teams externalUsers
          = Some (Returns (Some repos, errors, warning))
        \<and> Exists fs archivedDirname = Inr True \<and> ReadDir fs archivedDirname = Inr entries
        \<and> entry \<in> set entries \<and> \<not> entry_IsDir entry
        \<and> entry_Name entry = c # cs \<and> c \<noteq> CHR ''.'' \<and> HasSuffix (entry_Name entry) ''.yaml''
        \<and> NewRepository fs (Join archivedDirname (entry_Name entry)) = Inr archived
        \<and> ValidateRepository fs archived (Join archivedDirname (entry_Name entry))
             teams externalUsers = None
        \<and> Exists fs teamDirname = Inr True
        \<and> walked fs teamDirname teamDirPath teamName
        \<and> ReadDir fs teamDirPath = Inr subentries \<and> sube \<in> set subentries
        \<and> \<not> entry_IsDir sube \<and> Ext (entry_Name sube) = ''.yaml''
        \<and> entry_Name sube \<noteq> ''team.yaml''
        \<and> NewRepository fs (Join teamDirPath (entry_Name sube)) = Inr repo
        \<and> ValidateRepository fs repo (Join teamDirPath (entry_Name sube))
             teams externalUsers = None
        \<and> Name repo = Name archived"
  then have run: "ReadRepositories depth fs archivedDirname teamDirname teams externalUsers
          = Some (Returns (Some repos, errors, warning))"
    and arch: "Exists fs archivedDirname = Inr True" "ReadDir fs archivedDirname = Inr entries"
    and entry: "entry \<in> set entries"
    and valid: "\<not> entry_IsDir entry" "entry_Name entry = c # cs" "c \<noteq> CHR ''.''"
      "HasSuffix (entry_Name entry) ''.yaml''"
      "NewRepository fs (Join archivedDirname (entry_Name entry)) = Inr archived"
      "ValidateRepository fs archived (Join archivedDirname (entry_Name entry))
         teams externalUsers = None"
    and root: "Exists fs teamDirname = Inr True"
    and w: "walked fs teamDirname teamDirPath teamName"
    and listing: "ReadDir fs teamDirPath = Inr subentries" and sube: "sube \<in> set subentries"
    and yaml: "\<not> entry_IsDir sube" "Ext (entry_Name sube) = ''.yaml''"
      "entry_Name sube \<noteq> ''team.yaml''"
      "NewRepository fs (Join teamDirPath (entry_Name sube)) = Inr repo"
      "ValidateRepository fs repo (Join teamDirPath (entry_Name sube)) teams externalUsers = None"
    and same: "Name repo = Name archived"
    by blast+
  from run arch obtain m1 e1 w1 where
    one: "readArchivedEntries fs archivedDirname teams externalUsers entries (Map.empty, [], [])
            = Returns (m1, e1, w1)"
    and two: "readTeams depth fs archivedDirname teamDirname teams externalUsers (m1, e1, w1)
            = Some (Returns (Some repos, errors, warning))"
    by (auto simp: ReadRepositories_def split: go.splits)
  have "m1 (Name repo) \<noteq> None"
    using readArchivedEntries_defines [OF valid entry one] same by simp
  then obtain a where a1: "m1 (Name repo) = Some a" by blast
  have a2: "Archived a \<and> Owner a = None"
    using readArchivedEntries_archived [OF one] a1 by simp
  have kept: "repos (Name repo) = Some a"
    using readTeams_preserves [OF two] a1 by blast
  from w obtain top where top: "ReadDir fs teamDirname = Inr top"
    by (induction rule: walked.induct) auto
  with two root have three: "readTeamEntries depth fs archivedDirname teamDirname teams externalUsers
        top (m1, e1, w1) = Some (Returns (repos, errors, warning))"
    by (auto simp: readTeams_def split: option.splits go.splits)
  have flows: "msg \<in> set es"
    if "m (Name repo) = Some a"
      "recursiveReadRepositories d fs archivedDirname teamDirPath teamName m teams externalUsers
         = Some (Returns (m', es, ws))"
    for d m m' es ws
  proof (rule walk_reports [where m = m and N = "Name repo" and a = a and x = sube,
                            OF w listing sube _ that])
    show "msg \<in> set e'"
      if "m (Name repo) = Some a"
        "readSubentry depth fs archivedDirname teamDirPath teamName teams externalUsers sube
           (m, e, w) = Some (Returns (m', e', w'))"
      for depth m e w m' e' w'
      unfolding msg_def
      using file_reports [where m = m and a = a, OF yaml that(1) _ that(2)] a2 by simp
  qed
  have "msg \<in> set errors"
    using walked_reports [where m = m1 and N = "Name repo" and a = a and msg = msg,
                          OF top a1 three w] flows
    by blast
  then show "''Repository '' @ Name repo @ '' defined in 2 places (check ''
           @ Join teamDirPath (entry_Name sube) @ '' and '' @ Join archivedDirname (Name repo)
           @ '')'' \<in> set errors"
    by (simp only: msg_def)
  show "\<exists>a. repos (Name repo) = Some a \<and> Archived a \<and> Owner a = None"
    using kept a2 by blast
  show "\<forall>m e w a. m (Name repo) = Some a \<and> Owner a = None \<longrightarrow>
              readRepositoryFile fs archivedDirname teamDirPath teamName teams externalUsers sube
                (m, e, w)
              = (m, e @ [''Repository '' @ Name repo @ '' defined in 2 places (check ''
                         @ Join teamDirPath (entry_Name sube) @ '' and ''
                         @ Join archivedDirname (Name repo) @ '')''], w)"
    using yaml(4,5) by (simp add: readRepositoryFile_def)
qed

text \<open>
  The claim as stated fails: the repository \<open>x\<close> is defined in \<open>archived\<close> and in the team
  \<open>T\<close>, the one error is reported, and \<open>x\<close> is in the returned map.
\<close>

theorem duplicate_repository_kept_counterexample:
  "map_option Archived
     (loadedRepository (ReadRepositories 1 conflict_env ''archived'' ''teams'' no_teams no_teams) ''x'')
     = Some True
   \<and> loadedRepository (ReadRepositories 1 conflict_env ''archived'' ''teams'' no_teams no_teams) ''x''
     \<noteq> None
   \<and> reportedErrors (ReadRepositories 1 conflict_env ''archived'' ''teams'' no_teams no_teams)
     = [''Repository x defined in 2 places (check teams/T/x.yaml and archived/x)'']"
  by (simp add: example_eval)

theorem duplicate_repository_reported_witness:
  "teamsWithin 1 conflict_env ''teams''
   \<and> walked conflict_env ''teams'' ''teams/T'' ''T''
   \<and> (\<exists>repos errors warning.
         ReadRepositories 1 conflict_env ''archived'' ''teams'' no_teams no_teams
           = Some (Returns (Some repos, errors, warning))
       \<and> ''Repository x defined in 2 places (check teams/T/x.yaml and archived/x)'' \<in> set errors
       \<and> (\<exists>a. repos ''x'' = Some a \<and> Archived a \<and> Owner a = None))"
proof -
  have within: "teamsWithin 1 conflict_env ''teams''"
    by (simp add: example_eval)
  have "walked conflict_env ''teams'' (Join ''teams'' (entry_Name (dirEntry ''T'')))
          (entry_Name (dirEntry ''T''))"
    by (rule walked.team [where entries = "[dirEntry ''T'']"]) (simp_all add: example_eval)
  then have w: "walked conflict_env ''teams'' ''teams/T'' ''T''"
    by (simp add: example_eval)
  obtain repos errors warning where run:
      "ReadRepositories 1 conflict_env ''archived'' ''teams'' no_teams no_teams
         = Some (Returns (Some repos, errors, warning))"
    by (simp add: example_eval)
  obtain archived where archived:
      "NewRepository conflict_env (Join ''archived'' (entry_Name (fileEntry ''x.yaml''))) = Inr archived"
      "ValidateRepository conflict_env archived (Join ''archived'' (entry_Name (fileEntry ''x.yaml'')))
         no_teams no_teams = None"
      "Name archived = ''x''"
    by (simp add: example_eval)
  obtain repo where repo:
      "NewRepository conflict_env (Join ''teams/T'' (entry_Name (fileEntry ''x.yaml''))) = Inr repo"
      "ValidateRepository conflict_env repo (Join ''teams/T'' (entry_Name (fileEntry ''x.yaml'')))
         no_teams no_teams = None"
      "Name repo = ''x''"
    by (simp add: example_eval)
  have facts:
      "Exists conflict_env ''archived'' = Inr True"
      "ReadDir conflict_env ''archived'' = Inr [fileEntry ''x.yaml'']"
      "\<not> entry_IsDir (fileEntry ''x.yaml'')"
      "entry_Name (fileEntry ''x.yaml'') = CHR ''x'' # ''.yaml''"
      "HasSuffix (entry_Name (fileEntry ''x.yaml'')) ''.yaml''"
      "Exists conflict_env ''teams'' = Inr True"
      "ReadDir conflict_env ''teams/T'' = Inr [fileEntry ''x.yaml'']"
      "Ext (entry_Name (fileEntry ''x.yaml'')) = ''.yaml''"
      "entry_Name (fileEntry ''x.yaml'') \<noteq> ''team.yaml''"
      "Join ''teams/T'' (entry_Name (fileEntry ''x.yaml'')) = ''teams/T/x.yaml''"
      "Join ''archived'' ''x'' = ''archived/x''"
    by (simp_all add: example_eval)
  have "''Repository '' @ Name repo @ '' defined in 2 places (check ''
           @ Join ''teams/T'' (entry_Name (fileEntry ''x.yaml'')) @ '' and ''
           @ Join ''archived'' (Name repo) @ '')'' \<in> set errors
        \<and> (\<exists>a. repos (Name repo) = Some a \<and> Archived a \<and> Owner a = None)"
    using duplicate_repository_reported
            [of 1 conflict_env "''teams''" "''archived''" no_teams no_teams repos errors warning
                "[fileEntry ''x.yaml'']" "fileEntry ''x.yaml''" "CHR ''x''" "''.yaml''" archived
                "''teams/T''" "''T''" "[fileEntry ''x.yaml'']" "fileEntry ''x.yaml''" repo]
          run w archived repo facts
    by simp
  then have "''Repository x defined in 2 places (check teams/T/x.yaml and archived/x)'' \<in> set errors
        \<and> (\<exists>a. repos ''x'' = Some a \<and> Archived a \<and> Owner a = None)"
    using repo(3) facts(10,11) by simp
  then show ?thesis using within w run by blast
qed

subsection \<open>Files whose names start with a dot\<close>

text \<open>
  C5. The claim is that no file whose name starts with a dot is parsed, validated or
  inserted. The archive phase skips such a file (\<open>.z.yaml\<close> below is not loaded), but the
  team walk only skips directories whose names start with a dot: in the team \<open>T\<close> the
  file \<open>.x.yaml\<close> is loaded as the repository \<open>.x\<close> with owner \<open>T\<close>, and the file \<open>.y.yaml\<close>
  is parsed and validated, and its validation error is reported.
\<close>

theorem hidden_file_in_team_tree_is_loaded:
  "map_option Owner
     (loadedRepository (ReadRepositories 1 hidden_env ''archived'' ''teams'' no_teams no_teams) ''.x'')
     = Some (Some ''T'')
   \<and> reportedErrors (ReadRepositories 1 hidden_env ''archived'' ''teams'' no_teams no_teams)
     = [''invalid name: other for repository filename .y.yaml'']
   \<and> loadedRepository (ReadRepositories 1 hidden_env ''archived'' ''teams'' no_teams no_teams) ''.z''
     = None"
  by (simp add: example_eval)

end
